theory Spec2Isabelle
  imports Main "HOL-Library.Word"
begin

unbundle bit_operations_syntax

section \<open>Data model of blinkos.cpp\<close>

text \<open>
  The file \<^verbatim>\<open>src/libraries/blinkos/src/blinkos.cpp\<close> is the operating system loop of a
  Blinks tile. It owns five globals (\<^verbatim>\<open>loopstate_in\<close>, \<^verbatim>\<open>loopstate_out\<close>,
  \<^verbatim>\<open>sleepTimer\<close>, \<^verbatim>\<open>buttonstate\<close> and the static \<^verbatim>\<open>step_us\<close>) and calls into
  drivers whose code lives in other files. The globals are fields of one state record;
  the drivers' state that the functions read or change is kept beside them, and every
  call that leaves the file (and the call of \<^verbatim>\<open>crccheck\<close>) is appended to a call log.
\<close>

type_synonym u8 = "8 word"
type_synonym unsigned = "16 word"   \<comment> \<open>\<^verbatim>\<open>unsigned\<close> on the 8-bit AVR target\<close>
type_synonym millis_t = "32 word"

text \<open>
  A \<^verbatim>\<open>uint8_t const *\<close> as the file uses it: either null (the zero-initialised global)
  or an offset into the packet buffer of one IR face.
\<close>

datatype ptr = NULL | PacketBuffer nat nat

text \<open>
  Modelled from the spec: the structs \<^verbatim>\<open>ir_data_buffer_t\<close>, \<^verbatim>\<open>buttonstate_t\<close>,
  \<^verbatim>\<open>loopstate_in_t\<close>, \<^verbatim>\<open>pixelColor_t\<close> and \<^verbatim>\<open>loopstate_out_t\<close> are declared in
  \<^verbatim>\<open>blinkos.h\<close>, which is not among the sources. The fields are the ones the file reads
  and writes; lengths, flags and counts are 8-bit values, as the \<^verbatim>\<open>uint8_t\<close> locals they
  are assigned from. An array indexed by a face is a function of the face number; the
  loops of the file use only indices below the face count.
\<close>

record ir_data_buffer_t =
  data :: ptr
  len :: u8
  ready_flag :: u8

record buttonstate_t =
  bitflags :: u8
  clickcount :: u8
  down :: u8

record loopstate_in_t =
  ir_data_buffers :: "nat \<Rightarrow> ir_data_buffer_t"
  buttonstate :: buttonstate_t
  millis :: millis_t
  woke_flag :: u8

text \<open>
  A pixel colour is fifteen bits of colour and the one-bit field \<^verbatim>\<open>reserved\<close>, which the
  API uses as the "changed" mark.
\<close>

record pixelColor_t =
  rgb :: "15 word"
  reserved :: "1 word"

record loopstate_out_t =
  colors :: "nat \<Rightarrow> pixelColor_t"

text \<open>
  Modelled from the spec: the IR driver's per-face receive slot (\<^verbatim>\<open>blinkos_irdata.h\<close> is
  not among the sources): a packet-ready flag, a length, and the raw receive buffer.
\<close>

record ir_face =
  packet_ready :: bool
  packet_len :: u8
  packet_buffer :: "u8 list"

text \<open>Modelled from the spec: class \<^verbatim>\<open>Timer\<close> of \<^verbatim>\<open>blinkos_timer.h\<close> holds one deadline.\<close>

record Timer =
  m_expireTime :: millis_t

text \<open>The calls recorded in the log, in the order the code makes them.\<close>

datatype call =
    Pixel_disable
  | Ir_disable
  | Button_ISR_on
  | Power_sleep
  | Button_ISR_off
  | Ir_enable
  | Pixel_enable
  | Button_enable_pu
  | IncrementMillis1ms
  | UpdateButtonState1ms
  | UpdateMillisSnapshot
  | IrDataMarkPacketRead nat
  | Crccheck ptr u8
  | SetupEntry
  | LoopEntry loopstate_in_t
  | Pixel_bufferedSetPixel nat pixelColor_t
  | Pixel_displayBufferedPixels

record os_state =
  loopstate_in :: loopstate_in_t
  loopstate_out :: loopstate_out_t
  sleepTimer :: Timer
  buttonstate_global :: buttonstate_t    \<comment> \<open>the global \<^verbatim>\<open>buttonstate\<close>\<close>
  step_us :: unsigned
  millis_counter :: millis_t             \<comment> \<open>the counter behind \<^verbatim>\<open>incrementMillis1ms\<close>\<close>
  millis_snapshot :: millis_t
  ir_faces :: "nat \<Rightarrow> ir_face"
  pixel_buffer :: "nat \<Rightarrow> pixelColor_t"
  asleep :: bool                         \<comment> \<open>the main thread is blocked inside \<^verbatim>\<open>power_sleep\<close>\<close>
  calls :: "call list"

definition log_call :: "call \<Rightarrow> os_state \<Rightarrow> os_state" where
  "log_call c s = s\<lparr>calls := calls s @ [c]\<rparr>"

text \<open>
  Modelled from the spec: \<^verbatim>\<open>IR_FACE_COUNT\<close> and \<^verbatim>\<open>PIXEL_FACE_COUNT\<close> are hardware
  constants declared outside the file. The spec numbers the faces from 0 and names faces
  0, 1 and 2; a Blinks tile is a hexagon, with six faces. The lemmas about the loops over
  the faces are proved for any list of faces.
\<close>

definition IR_FACE_COUNT :: nat where
  "IR_FACE_COUNT = 6"

definition PIXEL_FACE_COUNT :: nat where
  "PIXEL_FACE_COUNT = 6"

section \<open>The checksum\<close>

text \<open>
  Modelled from the spec: \<^verbatim>\<open>_crc8_ccitt_update\<close> comes from avr-libc's
  \<^verbatim>\<open>util/crc16.h\<close>, which is not among the sources. It is the 8-bit CCITT CRC
  (polynomial \<open>x^8 + x^2 + x + 1\<close>), one byte at a time, most significant bit first.
\<close>

definition crc8_ccitt_shift :: "u8 \<Rightarrow> u8" where
  "crc8_ccitt_shift d =
     (if d AND 0x80 \<noteq> 0 then push_bit 1 d XOR 0x07 else push_bit 1 d)"

definition crc8_ccitt_update :: "u8 \<Rightarrow> u8 \<Rightarrow> u8" where
  "crc8_ccitt_update inCrc inData = (crc8_ccitt_shift ^^ 8) (inCrc XOR inData)"

text \<open>
  A read through a byte pointer into a buffer. Reading past the end of the buffer is
  undefined in C; here it is the value \<open>None\<close>.
\<close>

definition rd :: "u8 list \<Rightarrow> nat \<Rightarrow> u8 option" where
  "rd buf p = (if p < length buf then Some (buf ! p) else None)"

text \<open>
  \<^verbatim>\<open>crccheck\<close>, lines 125 to 141. The loop \<^verbatim>\<open>while (--len)\<close> decrements the 8-bit
  length before it tests it, so a length of 0 wraps to 255. The parameter \<open>n\<close> is
  \<^verbatim>\<open>len\<close>, \<open>p\<close> is the offset of \<^verbatim>\<open>data\<close> in the buffer, and \<open>reads\<close> collects the
  offsets read so far.
\<close>

function crccheck_loop ::
  "u8 list \<Rightarrow> nat \<Rightarrow> u8 \<Rightarrow> u8 \<Rightarrow> nat list \<Rightarrow> (nat \<times> u8 \<times> nat list) option" where
  "crccheck_loop buf p n c reads =
     (if n - 1 \<noteq> 0 then
        (case rd buf p of
           None \<Rightarrow> None
         | Some b \<Rightarrow> crccheck_loop buf (p + 1) (n - 1) (crc8_ccitt_update c b) (reads @ [p]))
      else Some (p, c, reads))"
  by pat_completeness auto
termination
proof (relation "measure (\<lambda>(buf, p, n, c, reads). unat (n - 1))")
  fix buf :: "u8 list" and p :: nat and n c :: u8 and reads :: "nat list" and b :: u8
  assume "n - 1 \<noteq> 0"
  then have "unat (n - 1 - 1) < unat (n - 1)"
    using unat_minus_one [of "n - 1"] unat_gt_0 [of "n - 1"] by simp
  then show "((buf, p + 1, n - 1, crc8_ccitt_update c b, reads @ [p]), (buf, p, n, c, reads))
      \<in> measure (\<lambda>(buf, p, n, c, reads). unat (n - 1))"
    by simp
qed simp

declare crccheck_loop.simps [simp del]

text \<open>The result is the C truth value of \<^verbatim>\<open>*data == c\<close>, with the offsets read.\<close>

definition crccheck_reads :: "u8 list \<Rightarrow> u8 \<Rightarrow> (u8 \<times> nat list) option" where
  "crccheck_reads buf n =
     (case crccheck_loop buf 0 n 0xFF [] of
        None \<Rightarrow> None
      | Some (p, c, reads) \<Rightarrow>
          (case rd buf p of
             None \<Rightarrow> None
           | Some b \<Rightarrow> Some (if b = c then 1 else 0, reads @ [p])))"

definition crccheck :: "u8 list \<Rightarrow> u8 \<Rightarrow> u8 option" where
  "crccheck buf n = map_option fst (crccheck_reads buf n)"

section \<open>The IR packet pipeline\<close>

text \<open>
  Modelled from the spec: the IR driver's accessors (\<^verbatim>\<open>isPacketReady\<close>, \<^verbatim>\<open>packetLen\<close>,
  \<^verbatim>\<open>packetBuffer\<close>, \<^verbatim>\<open>markPacketRead\<close>) are declared in \<^verbatim>\<open>blinkos_irdata.h\<close>, which is
  not among the sources. Marking a packet read clears the face's ready flag, which frees
  the slot for the next frame.
\<close>

definition irDataIsPacketReady :: "nat \<Rightarrow> os_state \<Rightarrow> bool" where
  "irDataIsPacketReady f s = packet_ready (ir_faces s f)"

definition irDataPacketLen :: "nat \<Rightarrow> os_state \<Rightarrow> u8" where
  "irDataPacketLen f s = packet_len (ir_faces s f)"

definition irDataPacketBuffer :: "nat \<Rightarrow> os_state \<Rightarrow> u8 list" where
  "irDataPacketBuffer f s = packet_buffer (ir_faces s f)"

definition irDataMarkPacketRead :: "nat \<Rightarrow> os_state \<Rightarrow> os_state" where
  "irDataMarkPacketRead f s =
     log_call (IrDataMarkPacketRead f)
       (s\<lparr>ir_faces := (ir_faces s)(f := (ir_faces s f)\<lparr>packet_ready := False\<rparr>)\<rparr>)"

text \<open>The two assignments of lines 180 and 181.\<close>

definition surface_userland :: "nat \<Rightarrow> u8 \<Rightarrow> os_state \<Rightarrow> os_state" where
  "surface_userland f packetLen s =
     s\<lparr>loopstate_in := (loopstate_in s)\<lparr>ir_data_buffers :=
          (ir_data_buffers (loopstate_in s))
            (f := (ir_data_buffers (loopstate_in s) f)\<lparr>len := packetLen - 1, ready_flag := 1\<rparr>)\<rparr>\<rparr>"

text \<open>Routing on the header byte \<^verbatim>\<open>*data\<close>, lines 177 to 198.\<close>

definition route_packet :: "nat \<Rightarrow> u8 \<Rightarrow> u8 \<Rightarrow> os_state \<Rightarrow> os_state" where
  "route_packet f header packetLen s =
     (if header = 0x01 then surface_userland f packetLen s
      else if header = 0x02 then irDataMarkPacketRead f s
      else irDataMarkPacketRead f s)"

text \<open>
  The body of the loop over the faces, lines 149 to 211. \<^verbatim>\<open>data\<close> points to the start of
  the face's buffer, so \<^verbatim>\<open>*data\<close> is the read of offset 0. The call of \<^verbatim>\<open>crccheck\<close> is
  logged with its arguments.
\<close>

definition processPendingIRPacket :: "nat \<Rightarrow> os_state \<Rightarrow> os_state option" where
  "processPendingIRPacket f s =
     (if irDataIsPacketReady f s then
        (let packetLen = irDataPacketLen f s in
         if packetLen < 2 then Some (irDataMarkPacketRead f s)
         else
           (let buf = irDataPacketBuffer f s;
                s1 = log_call (Crccheck (PacketBuffer f 0) packetLen) s in
            case crccheck buf packetLen of
              None \<Rightarrow> None
            | Some ok \<Rightarrow>
                if ok \<noteq> 0 then
                  (case rd buf 0 of
                     None \<Rightarrow> None
                   | Some header \<Rightarrow> Some (route_packet f header packetLen s1))
                else Some (irDataMarkPacketRead f s1)))
      else Some s)"

text \<open>
  The loop \<^verbatim>\<open>for (f = 0; f < IR_FACE_COUNT; f++)\<close> of lines 147 to 212: the body runs
  for each face in order, on the state the face before left; a read outside a buffer ends
  the run with \<open>None\<close>.
\<close>

fun for_faces :: "(nat \<Rightarrow> os_state \<Rightarrow> os_state option) \<Rightarrow> nat list \<Rightarrow> os_state \<Rightarrow> os_state option" where
  "for_faces body [] s = Some s"
| "for_faces body (f # fs) s =
     (case body f s of None \<Rightarrow> None | Some s' \<Rightarrow> for_faces body fs s')"

definition processPendingIRPackets :: "os_state \<Rightarrow> os_state option" where
  "processPendingIRPackets s = for_faces processPendingIRPacket [0..<IR_FACE_COUNT] s"

section \<open>Timekeeping, the button and sleep\<close>

text \<open>
  Modelled from the spec: \<^verbatim>\<open>MILLIS_PER_SECOND\<close>, the millisecond counter with its snapshot
  and class \<^verbatim>\<open>Timer\<close> are declared in \<^verbatim>\<open>blinkos_timer.h\<close>, which is not among the sources.
  The counter advances by one per call of \<^verbatim>\<open>incrementMillis1ms\<close>; the main loop copies it
  into the snapshot; a timer holds the deadline "current time plus timeout" and is compared
  with the snapshot. The current time a timer sees is the snapshot, and the timer is
  expired at or after the deadline.
\<close>

definition MILLIS_PER_SECOND :: millis_t where
  "MILLIS_PER_SECOND = 1000"

definition incrementMillis1ms :: "os_state \<Rightarrow> os_state" where
  "incrementMillis1ms s = log_call IncrementMillis1ms (s\<lparr>millis_counter := millis_counter s + 1\<rparr>)"

definition updateMillisSnapshot :: "os_state \<Rightarrow> os_state" where
  "updateMillisSnapshot s = log_call UpdateMillisSnapshot (s\<lparr>millis_snapshot := millis_counter s\<rparr>)"

definition Timer_set :: "millis_t \<Rightarrow> os_state \<Rightarrow> Timer" where
  "Timer_set ms s = \<lparr>m_expireTime = millis_snapshot s + ms\<rparr>"

definition Timer_isExpired :: "Timer \<Rightarrow> os_state \<Rightarrow> bool" where
  "Timer_isExpired t s = (m_expireTime t \<le> millis_snapshot s)"

text \<open>Lines 44 and 46. The product is computed in \<^verbatim>\<open>millis_t\<close>, after the cast.\<close>

definition SLEEP_TIMEOUT_SECONDS :: nat where
  "SLEEP_TIMEOUT_SECONDS = 10 * 60"

definition SLEEP_TIMEOUT_MS :: millis_t where
  "SLEEP_TIMEOUT_MS = of_nat SLEEP_TIMEOUT_SECONDS * MILLIS_PER_SECOND"

text \<open>
  \<^verbatim>\<open>sleep\<close>, lines 53 to 67. The call of \<^verbatim>\<open>power_sleep\<close> blocks until a button change
  interrupt, so the function is two steps: \<open>sleep_enter\<close> up to the blocking call, and
  \<open>sleep_exit\<close> from its return.
\<close>

definition sleep_enter :: "os_state \<Rightarrow> os_state" where
  "sleep_enter s =
     (log_call Power_sleep (log_call Button_ISR_on (log_call Ir_disable (log_call Pixel_disable s))))
       \<lparr>asleep := True\<rparr>"

definition sleep_exit :: "os_state \<Rightarrow> os_state" where
  "sleep_exit s =
     (let s1 = log_call Pixel_enable (log_call Ir_enable (log_call Button_ISR_off (s\<lparr>asleep := False\<rparr>)))
      in s1\<lparr>loopstate_in := (loopstate_in s1)\<lparr>woke_flag := 1\<rparr>\<rparr>)"

text \<open>\<^verbatim>\<open>postponeSleep\<close>, lines 70 to 72.\<close>

definition postponeSleep :: "os_state \<Rightarrow> os_state" where
  "postponeSleep s = s\<lparr>sleepTimer := Timer_set SLEEP_TIMEOUT_MS s\<rparr>"

text \<open>
  Modelled from the spec: \<^verbatim>\<open>updateButtonState1ms\<close> is the external debounce function. What
  it does at one tick depends on the raw button input, so its outcome at that tick is an
  input of the model: whether it reports activity, and the button state it leaves.
\<close>

type_synonym button_update = "bool \<times> buttonstate_t"

definition updateButtonState1ms :: "button_update \<Rightarrow> os_state \<Rightarrow> bool \<times> os_state" where
  "updateButtonState1ms u s =
     (fst u, log_call UpdateButtonState1ms (s\<lparr>buttonstate_global := snd u\<rparr>))"

text \<open>\<^verbatim>\<open>timer_1000us_callback_sei\<close>, lines 76 to 84.\<close>

definition timer_1000us_callback_sei :: "button_update \<Rightarrow> os_state \<Rightarrow> os_state" where
  "timer_1000us_callback_sei u s =
     (case updateButtonState1ms u (incrementMillis1ms s) of
        (activity, s') \<Rightarrow> if activity then postponeSleep s' else s')"

text \<open>
  \<^verbatim>\<open>grabAndClearButtonState\<close>, lines 88 to 99. The destination \<open>d\<close> is a reference
  parameter; the function returns it updated, with the new state. The atomic block is one
  step of the model.
\<close>

definition grabAndClearButtonState :: "buttonstate_t \<Rightarrow> os_state \<Rightarrow> buttonstate_t \<times> os_state" where
  "grabAndClearButtonState d s =
     (d\<lparr>bitflags := bitflags (buttonstate_global s),
        clickcount := clickcount (buttonstate_global s),
        down := down (buttonstate_global s)\<rparr>,
      s\<lparr>buttonstate_global := (buttonstate_global s)\<lparr>bitflags := 0\<rparr>\<rparr>)"

text \<open>\<^verbatim>\<open>timer_256us_callback_sei\<close>, lines 105 to 116, with its static \<^verbatim>\<open>step_us\<close>.\<close>

definition timer_256us_callback_sei :: "button_update \<Rightarrow> os_state \<Rightarrow> os_state" where
  "timer_256us_callback_sei u s =
     (let s1 = s\<lparr>step_us := step_us s + 256\<rparr> in
      if step_us s1 \<ge> 1000 then
        (let s2 = timer_1000us_callback_sei u s1 in s2\<lparr>step_us := step_us s2 - 1000\<rparr>)
      else s1)"

section \<open>The main loop\<close>

text \<open>
  Modelled from the spec: \<^verbatim>\<open>pixel_bufferedSetPixel\<close> of the pixel driver stores the colour
  of one face in the display buffer.
\<close>

definition pixel_bufferedSetPixel :: "nat \<Rightarrow> pixelColor_t \<Rightarrow> os_state \<Rightarrow> os_state" where
  "pixel_bufferedSetPixel f color s =
     log_call (Pixel_bufferedSetPixel f color) (s\<lparr>pixel_buffer := (pixel_buffer s)(f := color)\<rparr>)"

text \<open>The body of the loop of lines 228 to 233.\<close>

definition init_buffer :: "nat \<Rightarrow> os_state \<Rightarrow> os_state" where
  "init_buffer f s =
     s\<lparr>loopstate_in := (loopstate_in s)\<lparr>ir_data_buffers :=
          (ir_data_buffers (loopstate_in s))
            (f := (ir_data_buffers (loopstate_in s) f)\<lparr>data := PacketBuffer f 1, ready_flag := 0\<rparr>)\<rparr>\<rparr>"

text \<open>
  \<^verbatim>\<open>run\<close> up to the loop, lines 228 to 245. The user's \<^verbatim>\<open>setupEntry\<close> is outside the file;
  its call is logged.
\<close>

definition run_setup :: "os_state \<Rightarrow> os_state" where
  "run_setup s =
     postponeSleep
       (log_call SetupEntry
         (log_call Button_enable_pu
           (log_call Pixel_enable
             (log_call Ir_enable (fold init_buffer [0..<IR_FACE_COUNT] s)))))"

text \<open>The body of the loop of lines 265 to 274.\<close>

definition forward_color :: "nat \<Rightarrow> os_state \<Rightarrow> os_state" where
  "forward_color f s =
     (let color = colors (loopstate_out s) f in
      if reserved color \<noteq> 0 then pixel_bufferedSetPixel f color s else s)"

definition forward_colors :: "os_state \<Rightarrow> os_state" where
  "forward_colors s = fold forward_color [0..<PIXEL_FACE_COUNT] s"

text \<open>
  The user callback \<^verbatim>\<open>loopEntry\<close> gets \<^verbatim>\<open>loopstate_in\<close> through a pointer to const and
  fills \<^verbatim>\<open>loopstate_out\<close>: a function from the input and the old output to the new output.
\<close>

type_synonym loop_entry = "loopstate_in_t \<Rightarrow> loopstate_out_t \<Rightarrow> loopstate_out_t"

text \<open>Lines 249 to 261: everything before the call of the user's loop.\<close>

definition prepare_loopstate_in :: "os_state \<Rightarrow> os_state option" where
  "prepare_loopstate_in s =
     (case processPendingIRPackets (updateMillisSnapshot s) of
        None \<Rightarrow> None
      | Some s1 \<Rightarrow>
          (case grabAndClearButtonState (buttonstate (loopstate_in s1)) s1 of
             (d, s2) \<Rightarrow>
               Some (s2\<lparr>loopstate_in :=
                      (loopstate_in s2)\<lparr>buttonstate := d, millis := millis_snapshot s2\<rparr>\<rparr>)))"

text \<open>Line 263.\<close>

definition call_loopEntry :: "loop_entry \<Rightarrow> os_state \<Rightarrow> os_state" where
  "call_loopEntry loopEntry s =
     log_call (LoopEntry (loopstate_in s))
       (s\<lparr>loopstate_out := loopEntry (loopstate_in s) (loopstate_out s)\<rparr>)"

text \<open>
  Lines 279 to 282. When the timer has expired the main thread enters \<^verbatim>\<open>sleep\<close> and
  blocks there.
\<close>

definition check_sleepTimer :: "os_state \<Rightarrow> os_state" where
  "check_sleepTimer s = (if Timer_isExpired (sleepTimer s) s then sleep_enter s else s)"

text \<open>One pass of the body of \<^verbatim>\<open>while (1)\<close>, lines 249 to 282.\<close>

definition loop_iteration :: "loop_entry \<Rightarrow> os_state \<Rightarrow> os_state option" where
  "loop_iteration loopEntry s =
     (case prepare_loopstate_in s of
        None \<Rightarrow> None
      | Some s1 \<Rightarrow>
          Some (check_sleepTimer
                 (log_call Pixel_displayBufferedPixels
                   (forward_colors (call_loopEntry loopEntry s1)))))"

section \<open>The system as a sequence of events\<close>

text \<open>
  \<^verbatim>\<open>run\<close> never returns, and interrupts run between the steps of the main thread. A run of
  the system is a sequence of events: a timer interrupt (with the outcome of the button
  update, should the millisecond callback run), the millisecond callback itself, one pass
  of the main loop, the button interrupt that ends \<^verbatim>\<open>power_sleep\<close>, and the IR driver
  completing a frame on a face. While the main thread is blocked in \<^verbatim>\<open>power_sleep\<close> it
  makes no pass of the loop; a button interrupt while awake changes nothing here.
\<close>

datatype event =
    Timer_256us button_update
  | Timer_1000us button_update
  | Main_loop
  | Button_wake
  | Ir_frame nat "u8 list"

text \<open>
  Modelled from the spec: the IR driver stores a completed frame in the face's slot and
  marks it ready; it does not overwrite a slot that is still marked ready. The length is
  an 8-bit value, so a frame of 256 bytes or more is not stored.
\<close>

definition ir_receive :: "nat \<Rightarrow> u8 list \<Rightarrow> os_state \<Rightarrow> os_state" where
  "ir_receive f frame s =
     (if packet_ready (ir_faces s f) \<or> 256 \<le> length frame then s
      else s\<lparr>ir_faces := (ir_faces s)
             (f := \<lparr>packet_ready = True, packet_len = of_nat (length frame), packet_buffer = frame\<rparr>)\<rparr>)"

definition step :: "loop_entry \<Rightarrow> event \<Rightarrow> os_state \<Rightarrow> os_state option" where
  "step loopEntry e s =
     (case e of
        Timer_256us u \<Rightarrow> Some (timer_256us_callback_sei u s)
      | Timer_1000us u \<Rightarrow> Some (timer_1000us_callback_sei u s)
      | Main_loop \<Rightarrow> if asleep s then Some s else loop_iteration loopEntry s
      | Button_wake \<Rightarrow> Some (if asleep s then sleep_exit s else s)
      | Ir_frame f frame \<Rightarrow> Some (ir_receive f frame s))"

fun exec :: "loop_entry \<Rightarrow> event list \<Rightarrow> os_state \<Rightarrow> os_state option" where
  "exec loopEntry [] s = Some s"
| "exec loopEntry (e # es) s =
     (case step loopEntry e s of None \<Rightarrow> None | Some s' \<Rightarrow> exec loopEntry es s')"

section \<open>Notions used in the statements\<close>

subsection \<open>The spec's words for frames\<close>

text \<open>
  The checksum is an 8-bit CRC (CCITT variant, seed 0xFF) over all bytes of the frame
  except the final one; the frame is valid iff the final byte equals it. A valid
  user-data frame has at least 2 bytes, a matching checksum and the header 0x01. The frame
  in a face's slot is the first \<open>packet_len\<close> bytes of the buffer; a slot is well formed
  when the buffer holds that many bytes, and \<open>faces_ok\<close> says so of every face.
\<close>

definition spec_crc8 :: "u8 list \<Rightarrow> u8" where
  "spec_crc8 bytes = foldl crc8_ccitt_update 0xFF bytes"

definition spec_checksum_ok :: "u8 list \<Rightarrow> bool" where
  "spec_checksum_ok frame = (last frame = spec_crc8 (butlast frame))"

definition spec_user_data_frame :: "u8 list \<Rightarrow> bool" where
  "spec_user_data_frame frame = (2 \<le> length frame \<and> spec_checksum_ok frame \<and> hd frame = 0x01)"

definition frame_of :: "ir_face \<Rightarrow> u8 list" where
  "frame_of x = take (unat (packet_len x)) (packet_buffer x)"

definition frame_in_buffer :: "ir_face \<Rightarrow> bool" where
  "frame_in_buffer x = (unat (packet_len x) \<le> length (packet_buffer x))"

definition faces_ok :: "os_state \<Rightarrow> bool" where
  "faces_ok s = list_all (\<lambda>f. frame_in_buffer (ir_faces s f)) [0..<IR_FACE_COUNT]"

subsection \<open>Counting in the call log\<close>

text \<open>
  The runs of the millisecond callback (one call of \<^verbatim>\<open>incrementMillis1ms\<close> each), the
  entries into sleep, the inputs handed to the user callback, the writes to the display
  buffer, the calls of \<^verbatim>\<open>crccheck\<close>, and what a later state's log has beyond an earlier
  one's. \<open>dirty_faces\<close> lists the
  faces whose output colour carries the \<^verbatim>\<open>reserved\<close> bit.
\<close>

definition ms_ticks :: "call list \<Rightarrow> nat" where
  "ms_ticks cs = length (filter (\<lambda>c. c = IncrementMillis1ms) cs)"

definition sleeps :: "call list \<Rightarrow> nat" where
  "sleeps cs = length (filter (\<lambda>c. c = Power_sleep) cs)"

definition loop_inputs :: "call list \<Rightarrow> loopstate_in_t list" where
  "loop_inputs cs = concat (map (\<lambda>c. case c of LoopEntry li \<Rightarrow> [li] | _ \<Rightarrow> []) cs)"

definition is_setPixel :: "call \<Rightarrow> bool" where
  "is_setPixel c = (case c of Pixel_bufferedSetPixel f color \<Rightarrow> True | _ \<Rightarrow> False)"

definition is_crccheck :: "call \<Rightarrow> bool" where
  "is_crccheck c = (case c of Crccheck p n \<Rightarrow> True | _ \<Rightarrow> False)"

definition new_calls :: "os_state \<Rightarrow> os_state \<Rightarrow> call list" where
  "new_calls s s' = drop (length (calls s)) (calls s')"

definition dirty_faces :: "loopstate_out_t \<Rightarrow> nat list" where
  "dirty_faces out = filter (\<lambda>f. reserved (colors out f) \<noteq> 0) [0..<PIXEL_FACE_COUNT]"

subsection \<open>Quiet runs\<close>

text \<open>
  Quiet events are a millisecond tick without button activity, a pass of the main loop
  and an IR frame; \<open>ticks\<close> counts the millisecond ticks of a sequence of events.
  \<open>booted\<close> is the state in which \<^verbatim>\<open>run\<close> starts: clock and snapshot at zero, awake, no
  sleep logged, slots well formed.
\<close>

definition quiet :: "event \<Rightarrow> bool" where
  "quiet e = (case e of Timer_1000us u \<Rightarrow> \<not> fst u | Main_loop \<Rightarrow> True
              | Ir_frame f frame \<Rightarrow> True | _ \<Rightarrow> False)"

definition is_tick :: "event \<Rightarrow> bool" where
  "is_tick e = (case e of Timer_1000us u \<Rightarrow> True | _ \<Rightarrow> False)"

definition ticks :: "event list \<Rightarrow> nat" where
  "ticks es = length (filter is_tick es)"

definition booted :: "os_state \<Rightarrow> bool" where
  "booted p = (millis_counter p = 0 \<and> millis_snapshot p = 0 \<and> \<not> asleep p \<and>
               sleeps (calls p) = 0 \<and> faces_ok p)"

subsection \<open>Relations used in the proofs\<close>

text \<open>
  \<open>face_result\<close> is what one pass of the pipeline does to a face's slot and descriptor.
  \<open>ir_effect\<close> is everything else the pipeline may do: it leaves the other fields alone and
  logs only calls of \<^verbatim>\<open>irDataMarkPacketRead\<close> and calls of \<^verbatim>\<open>crccheck\<close> with a length of
  at least 2. \<open>prepare_effect\<close> is what lines 249 to 261 do to the state.
  \<open>descriptors_kept\<close> and \<open>woke_kept\<close> relate a state to a later one: the data pointers
  are the same and a ready flag that was 1 is still 1; if the woke flag was 1 it is still
  1 and every input handed to the user callback in between carried it.
  \<open>awaiting_timeout\<close> is the invariant of a quiet run after \<open>n\<close> ticks, up to the timeout,
  and \<open>slept\<close> the state of having entered sleep once.
\<close>

definition face_view :: "nat \<Rightarrow> os_state \<Rightarrow> ir_face \<times> ir_data_buffer_t" where
  "face_view f s = (ir_faces s f, ir_data_buffers (loopstate_in s) f)"

definition face_result :: "ir_face \<times> ir_data_buffer_t \<Rightarrow> ir_face \<times> ir_data_buffer_t" where
  "face_result v =
     (case v of (x, b) \<Rightarrow>
        if \<not> packet_ready x then (x, b)
        else if 2 \<le> unat (packet_len x) \<and> spec_checksum_ok (frame_of x) \<and> hd (frame_of x) = 0x01
          then (x, b\<lparr>len := packet_len x - 1, ready_flag := 1\<rparr>)
        else (x\<lparr>packet_ready := False\<rparr>, b))"

definition ir_call :: "call \<Rightarrow> bool" where
  "ir_call c = (case c of IrDataMarkPacketRead f \<Rightarrow> True | Crccheck p n \<Rightarrow> 2 \<le> unat n | _ \<Rightarrow> False)"

definition ir_effect :: "os_state \<Rightarrow> os_state \<Rightarrow> bool" where
  "ir_effect s s' =
     (loopstate_out s' = loopstate_out s \<and> sleepTimer s' = sleepTimer s \<and>
      buttonstate_global s' = buttonstate_global s \<and> step_us s' = step_us s \<and>
      millis_counter s' = millis_counter s \<and> millis_snapshot s' = millis_snapshot s \<and>
      pixel_buffer s' = pixel_buffer s \<and> asleep s' = asleep s \<and>
      buttonstate (loopstate_in s') = buttonstate (loopstate_in s) \<and>
      millis (loopstate_in s') = millis (loopstate_in s) \<and>
      woke_flag (loopstate_in s') = woke_flag (loopstate_in s) \<and>
      (\<exists>cs. calls s' = calls s @ cs \<and> list_all ir_call cs))"

definition prepare_effect :: "os_state \<Rightarrow> os_state \<Rightarrow> bool" where
  "prepare_effect s s1 =
     ((\<exists>cs. calls s1 = calls s @ UpdateMillisSnapshot # cs \<and> list_all ir_call cs) \<and>
      loopstate_out s1 = loopstate_out s \<and> sleepTimer s1 = sleepTimer s \<and>
      step_us s1 = step_us s \<and> millis_counter s1 = millis_counter s \<and>
      millis_snapshot s1 = millis_counter s \<and> pixel_buffer s1 = pixel_buffer s \<and>
      asleep s1 = asleep s \<and>
      buttonstate_global s1 = (buttonstate_global s)\<lparr>bitflags := 0\<rparr> \<and>
      woke_flag (loopstate_in s1) = woke_flag (loopstate_in s) \<and>
      millis (loopstate_in s1) = millis_counter s \<and>
      buttonstate (loopstate_in s1) =
        (buttonstate (loopstate_in s))\<lparr>bitflags := bitflags (buttonstate_global s),
          clickcount := clickcount (buttonstate_global s), down := down (buttonstate_global s)\<rparr> \<and>
      (\<forall>g. face_view g s1 =
         (if g < IR_FACE_COUNT then face_result (face_view g s) else face_view g s)))"

definition descriptors_kept :: "os_state \<Rightarrow> os_state \<Rightarrow> bool" where
  "descriptors_kept s s' =
     (\<forall>f. data (ir_data_buffers (loopstate_in s') f) = data (ir_data_buffers (loopstate_in s) f) \<and>
          (ready_flag (ir_data_buffers (loopstate_in s) f) = 1 \<longrightarrow>
           ready_flag (ir_data_buffers (loopstate_in s') f) = 1))"

definition woke_kept :: "os_state \<Rightarrow> os_state \<Rightarrow> bool" where
  "woke_kept s s' =
     (woke_flag (loopstate_in s) = 1 \<longrightarrow>
      woke_flag (loopstate_in s') = 1 \<and>
      (\<exists>cs. calls s' = calls s @ cs \<and> list_all (\<lambda>li. woke_flag li = 1) (loop_inputs cs)))"

definition awaiting_timeout :: "nat \<Rightarrow> os_state \<Rightarrow> bool" where
  "awaiting_timeout n s =
     (faces_ok s \<and> m_expireTime (sleepTimer s) = SLEEP_TIMEOUT_MS \<and>
      millis_counter s = of_nat n \<and>
      sleeps (calls s) = (if asleep s then 1 else 0) \<and>
      (asleep s \<longrightarrow> n = 600000 \<and> millis_snapshot s = 600000))"

definition slept :: "os_state \<Rightarrow> bool" where
  "slept s = (faces_ok s \<and> asleep s \<and> sleeps (calls s) = 1)"

subsection \<open>Example states and runs\<close>

text \<open>
  The state at power-up has the zero-initialised globals, no packet in any slot and an
  empty log. After start-up, one frame is received: a valid user-data frame of four bytes
  on face 2, the same frame with a wrong final byte, or a frame of one byte on face 0.
  The example callback marks face 0 as changed and sets face 1 without the mark.
  \<open>asleep_after_timeout\<close> is the state after start-up, 600000 quiet ticks and a pass of the
  main loop; \<open>wake_then_two_passes\<close> is a wake, a tick with button activity and two passes
  of the main loop.
\<close>

definition power_on :: os_state where
  "power_on =
     \<lparr>loopstate_in =
        \<lparr>ir_data_buffers = (\<lambda>f. \<lparr>data = NULL, len = 0, ready_flag = 0\<rparr>),
         buttonstate = \<lparr>bitflags = 0, clickcount = 0, down = 0\<rparr>,
         millis = 0, woke_flag = 0\<rparr>,
      loopstate_out = \<lparr>colors = (\<lambda>f. \<lparr>rgb = 0, reserved = 0\<rparr>)\<rparr>,
      sleepTimer = \<lparr>m_expireTime = 0\<rparr>,
      buttonstate_global = \<lparr>bitflags = 0, clickcount = 0, down = 0\<rparr>,
      step_us = 0, millis_counter = 0, millis_snapshot = 0,
      ir_faces = (\<lambda>f. \<lparr>packet_ready = False, packet_len = 0, packet_buffer = []\<rparr>),
      pixel_buffer = (\<lambda>f. \<lparr>rgb = 0, reserved = 0\<rparr>),
      asleep = False, calls = []\<rparr>"

definition face2_user_frame :: os_state where
  "face2_user_frame = ir_receive 2 [0x01, 0x48, 0x49, 0x4B] (run_setup power_on)"

definition face2_bad_checksum :: os_state where
  "face2_bad_checksum = ir_receive 2 [0x01, 0x48, 0x49, 0x00] (run_setup power_on)"

definition face0_short_frame :: os_state where
  "face0_short_frame = ir_receive 0 [0x07] (run_setup power_on)"

definition example_loopEntry :: loop_entry where
  "example_loopEntry li out =
     out\<lparr>colors := (colors out)(0 := \<lparr>rgb = 31, reserved = 1\<rparr>, 1 := \<lparr>rgb = 992, reserved = 0\<rparr>)\<rparr>"

definition quiet_tick :: event where
  "quiet_tick = Timer_1000us (False, buttonstate_global power_on)"

definition asleep_after_timeout :: os_state where
  "asleep_after_timeout =
     the (exec example_loopEntry (replicate 600000 quiet_tick @ [Main_loop]) (run_setup power_on))"

definition wake_then_two_passes :: "event list" where
  "wake_then_two_passes =
     [Button_wake, Timer_1000us (True, buttonstate_global power_on), Main_loop, Main_loop]"

section \<open>Lemmas: the checksum and the pipeline\<close>

text \<open>
  Within the buffer the loop of \<^verbatim>\<open>crccheck\<close> runs \<open>unat (len - 1)\<close> times, folds the CRC
  over the bytes it passes and reads exactly their offsets, so \<^verbatim>\<open>crccheck\<close> is the spec's
  test of the checksum. From this, the pass over one face is a case distinction on the
  frame, and the loop over the faces does to each face what the pass over it alone does.
\<close>

lemma crccheck_loop_in_bounds:
  "unat (n - 1) = k \<Longrightarrow> p + k \<le> length buf \<Longrightarrow>
   crccheck_loop buf p n c reads =
     Some (p + k, foldl crc8_ccitt_update c (take k (drop p buf)), reads @ [p..<p + k])"
proof (induction k arbitrary: n p c reads)
  case 0
  then have "n - 1 = 0" by (simp add: unat_eq_0)
  then show ?case by (simp add: crccheck_loop.simps)
next
  case (Suc k)
  from Suc.prems have nz: "n - 1 \<noteq> 0" by auto
  from Suc.prems have lt: "p < length buf" by simp
  have k: "unat (n - 1 - 1) = k"
    using unat_minus_one [OF nz] Suc.prems(1) by simp
  have ih: "crccheck_loop buf (p + 1) (n - 1) (crc8_ccitt_update c (buf ! p)) (reads @ [p]) =
      Some (p + 1 + k, foldl crc8_ccitt_update (crc8_ccitt_update c (buf ! p)) (take k (drop (p + 1) buf)),
            (reads @ [p]) @ [p + 1..<p + 1 + k])"
    using Suc.IH [OF k, of "p + 1"] Suc.prems(2) by simp
  have t: "take (Suc k) (drop p buf) = buf ! p # take k (drop (p + 1) buf)"
    using lt by (simp add: Cons_nth_drop_Suc [symmetric])
  have u: "[p..<p + Suc k] = p # [p + 1..<p + 1 + k]"
    by (simp add: upt_conv_Cons)
  show ?case
    unfolding t u
    using nz lt ih by (subst crccheck_loop.simps) (simp add: rd_def)
qed

lemma crccheck_reads_in_bounds:
  assumes "1 \<le> unat n" and "unat n \<le> length buf"
  shows "crccheck_reads buf n =
    Some (if buf ! (unat n - 1) = foldl crc8_ccitt_update 0xFF (take (unat n - 1) buf) then 1 else 0,
          [0..<unat n])"
proof -
  have nz: "n \<noteq> 0" using assms(1) by auto
  have k: "unat (n - 1) = unat n - 1" using nz by (simp add: unat_minus_one)
  have "crccheck_loop buf 0 n 0xFF [] =
      Some (0 + (unat n - 1), foldl crc8_ccitt_update 0xFF (take (unat n - 1) (drop 0 buf)),
            [] @ [0..<0 + (unat n - 1)])"
    using assms by (intro crccheck_loop_in_bounds k) simp
  moreover have "[0..<unat n - 1] @ [unat n - 1] = [0..<unat n]"
    using assms(1) by (cases "unat n") simp_all
  ultimately show ?thesis
    using assms by (simp add: crccheck_reads_def rd_def)
qed

lemma crccheck_spec:
  assumes "1 \<le> unat n" and "unat n \<le> length buf"
  shows "crccheck buf n = Some (if spec_checksum_ok (take (unat n) buf) then 1 else 0)"
proof -
  have "take (unat n) buf \<noteq> []"
    using assms by auto
  then have "last (take (unat n) buf) = take (unat n) buf ! (length (take (unat n) buf) - 1)"
    by (rule last_conv_nth)
  then have "last (take (unat n) buf) = buf ! (unat n - 1)"
    using assms by (simp add: min_absorb2)
  moreover have "butlast (take (unat n) buf) = take (unat n - 1) buf"
    using assms by (simp add: butlast_take)
  ultimately show ?thesis
    using crccheck_reads_in_bounds [OF assms]
    by (simp add: crccheck_def spec_checksum_ok_def spec_crc8_def)
qed

lemma u8_not_less_2: "(\<not> n < (2 :: u8)) = (2 \<le> unat n)"
  by (simp add: word_less_nat_alt not_less)

lemma processPendingIRPacket_cases:
  assumes "frame_in_buffer (ir_faces s f)"
  shows "processPendingIRPacket f s = Some
    (if \<not> packet_ready (ir_faces s f) then s
     else if packet_len (ir_faces s f) < 2 then irDataMarkPacketRead f s
     else if spec_checksum_ok (frame_of (ir_faces s f))
       then route_packet f (hd (frame_of (ir_faces s f))) (packet_len (ir_faces s f))
              (log_call (Crccheck (PacketBuffer f 0) (packet_len (ir_faces s f))) s)
       else irDataMarkPacketRead f
              (log_call (Crccheck (PacketBuffer f 0) (packet_len (ir_faces s f))) s))"
proof (cases "packet_ready (ir_faces s f) \<and> \<not> packet_len (ir_faces s f) < 2")
  case False
  then show ?thesis
    by (auto simp: processPendingIRPacket_def irDataIsPacketReady_def irDataPacketLen_def Let_def)
next
  case True
  let ?n = "packet_len (ir_faces s f)" and ?buf = "packet_buffer (ir_faces s f)"
  from True have n2: "2 \<le> unat ?n" by (simp add: u8_not_less_2)
  from assms have le: "unat ?n \<le> length ?buf" by (simp add: frame_in_buffer_def)
  have crc: "crccheck ?buf ?n = Some (if spec_checksum_ok (frame_of (ir_faces s f)) then 1 else 0)"
    using crccheck_spec [of ?n ?buf] n2 le by (simp add: frame_of_def)
  have hd: "rd ?buf 0 = Some (hd (frame_of (ir_faces s f)))"
    using n2 le by (cases ?buf) (auto simp: rd_def frame_of_def take_Suc_conv_app_nth hd_conv_nth)
  show ?thesis
    using True crc hd
    by (simp add: processPendingIRPacket_def irDataIsPacketReady_def irDataPacketLen_def
        irDataPacketBuffer_def Let_def)
qed

lemma log_call_simps [simp]:
  "calls (log_call c s) = calls s @ [c]"
  "loopstate_in (log_call c s) = loopstate_in s"
  "loopstate_out (log_call c s) = loopstate_out s"
  "sleepTimer (log_call c s) = sleepTimer s"
  "buttonstate_global (log_call c s) = buttonstate_global s"
  "step_us (log_call c s) = step_us s"
  "millis_counter (log_call c s) = millis_counter s"
  "millis_snapshot (log_call c s) = millis_snapshot s"
  "ir_faces (log_call c s) = ir_faces s"
  "pixel_buffer (log_call c s) = pixel_buffer s"
  "asleep (log_call c s) = asleep s"
  by (simp_all add: log_call_def)

lemma irDataMarkPacketRead_simps [simp]:
  "calls (irDataMarkPacketRead f s) = calls s @ [IrDataMarkPacketRead f]"
  "loopstate_in (irDataMarkPacketRead f s) = loopstate_in s"
  "loopstate_out (irDataMarkPacketRead f s) = loopstate_out s"
  "sleepTimer (irDataMarkPacketRead f s) = sleepTimer s"
  "buttonstate_global (irDataMarkPacketRead f s) = buttonstate_global s"
  "step_us (irDataMarkPacketRead f s) = step_us s"
  "millis_counter (irDataMarkPacketRead f s) = millis_counter s"
  "millis_snapshot (irDataMarkPacketRead f s) = millis_snapshot s"
  "ir_faces (irDataMarkPacketRead f s) = (ir_faces s)(f := (ir_faces s f)\<lparr>packet_ready := False\<rparr>)"
  "pixel_buffer (irDataMarkPacketRead f s) = pixel_buffer s"
  "asleep (irDataMarkPacketRead f s) = asleep s"
  by (simp_all add: irDataMarkPacketRead_def)

lemma surface_userland_simps [simp]:
  "calls (surface_userland f n s) = calls s"
  "loopstate_in (surface_userland f n s) = (loopstate_in s)\<lparr>ir_data_buffers :=
          (ir_data_buffers (loopstate_in s))
            (f := (ir_data_buffers (loopstate_in s) f)\<lparr>len := n - 1, ready_flag := 1\<rparr>)\<rparr>"
  "loopstate_out (surface_userland f n s) = loopstate_out s"
  "sleepTimer (surface_userland f n s) = sleepTimer s"
  "buttonstate_global (surface_userland f n s) = buttonstate_global s"
  "step_us (surface_userland f n s) = step_us s"
  "millis_counter (surface_userland f n s) = millis_counter s"
  "millis_snapshot (surface_userland f n s) = millis_snapshot s"
  "ir_faces (surface_userland f n s) = ir_faces s"
  "pixel_buffer (surface_userland f n s) = pixel_buffer s"
  "asleep (surface_userland f n s) = asleep s"
  by (simp_all add: surface_userland_def)

lemma ir_effect_refl: "ir_effect s s"
  by (simp add: ir_effect_def)

lemma ir_effect_trans: "ir_effect a b \<Longrightarrow> ir_effect b c \<Longrightarrow> ir_effect a c"
  by (auto simp: ir_effect_def)

lemma processPendingIRPacket_effect:
  assumes "frame_in_buffer (ir_faces s f)"
  shows "\<exists>s'. processPendingIRPacket f s = Some s' \<and> ir_effect s s' \<and>
           face_view f s' = face_result (face_view f s) \<and>
           (\<forall>g. g \<noteq> f \<longrightarrow> face_view g s' = face_view g s)"
  unfolding processPendingIRPacket_cases [OF assms]
  by (auto simp: ir_effect_def face_view_def face_result_def route_packet_def ir_call_def
      word_less_nat_alt)

lemma frame_in_buffer_face_result:
  "frame_in_buffer (fst (face_result v)) = frame_in_buffer (fst v)"
  by (cases v) (simp add: face_result_def frame_in_buffer_def)

lemma for_faces_effect:
  assumes "distinct fs" and "\<forall>g \<in> set fs. frame_in_buffer (ir_faces s g)"
  shows "\<exists>s'. for_faces processPendingIRPacket fs s = Some s' \<and> ir_effect s s' \<and>
           (\<forall>g. face_view g s' = (if g \<in> set fs then face_result (face_view g s) else face_view g s))"
  using assms
proof (induction fs arbitrary: s)
  case Nil
  then show ?case by (simp add: ir_effect_refl)
next
  case (Cons f fs)
  from Cons.prems have "frame_in_buffer (ir_faces s f)" by simp
  from processPendingIRPacket_effect [OF this]
  obtain s1 where s1: "processPendingIRPacket f s = Some s1" "ir_effect s s1"
      "face_view f s1 = face_result (face_view f s)"
      "\<And>g. g \<noteq> f \<Longrightarrow> face_view g s1 = face_view g s"
    by blast
  from Cons.prems have nf: "f \<notin> set fs" and d: "distinct fs" by simp_all
  have "\<forall>g \<in> set fs. frame_in_buffer (ir_faces s1 g)"
  proof
    fix g assume g: "g \<in> set fs"
    with nf have "g \<noteq> f" by auto
    then have "face_view g s1 = face_view g s" by (rule s1(4))
    then have "ir_faces s1 g = ir_faces s g" by (simp add: face_view_def)
    with Cons.prems g show "frame_in_buffer (ir_faces s1 g)" by simp
  qed
  from Cons.IH [OF d this]
  obtain s' where s': "for_faces processPendingIRPacket fs s1 = Some s'" "ir_effect s1 s'"
      "\<And>g. face_view g s' = (if g \<in> set fs then face_result (face_view g s1) else face_view g s1)"
    by blast
  have "\<forall>g. face_view g s' = (if g \<in> set (f # fs) then face_result (face_view g s) else face_view g s)"
  proof
    fix g
    show "face_view g s' = (if g \<in> set (f # fs) then face_result (face_view g s) else face_view g s)"
      using s'(3) [of g] s1(3) s1(4) [of g] nf by (cases "g = f") auto
  qed
  with s1(1) s'(1) ir_effect_trans [OF s1(2) s'(2)] show ?case by simp
qed

lemma processPendingIRPackets_effect:
  assumes "faces_ok s"
  shows "\<exists>s'. processPendingIRPackets s = Some s' \<and> ir_effect s s' \<and>
           (\<forall>g. face_view g s' =
              (if g < IR_FACE_COUNT then face_result (face_view g s) else face_view g s))"
proof -
  have "\<forall>g \<in> set [0..<IR_FACE_COUNT]. frame_in_buffer (ir_faces s g)"
    using assms by (simp add: faces_ok_def list_all_iff)
  from for_faces_effect [OF distinct_upt this] show ?thesis
    by (simp add: processPendingIRPackets_def)
qed

lemma processPendingIRPacket_crccheck_calls:
  assumes "frame_in_buffer (ir_faces s f)"
  shows "\<exists>s' cs. processPendingIRPacket f s = Some s' \<and> calls s' = calls s @ cs \<and>
     filter is_crccheck cs =
       (if packet_ready (ir_faces s f) \<and> 2 \<le> unat (packet_len (ir_faces s f))
        then [Crccheck (PacketBuffer f 0) (packet_len (ir_faces s f))] else [])"
proof -
  let ?n = "packet_len (ir_faces s f)"
  let ?c = "Crccheck (PacketBuffer f 0) ?n"
  let ?cs = "if \<not> packet_ready (ir_faces s f) then []
     else if ?n < 2 then [IrDataMarkPacketRead f]
     else if spec_checksum_ok (frame_of (ir_faces s f)) \<and> hd (frame_of (ir_faces s f)) = 0x01
       then [?c]
     else [?c, IrDataMarkPacketRead f]"
  let ?s' = "the (processPendingIRPacket f s)"
  have a: "processPendingIRPacket f s = Some ?s'"
    by (simp add: processPendingIRPacket_cases [OF assms])
  have b: "calls ?s' = calls s @ ?cs"
    by (simp add: processPendingIRPacket_cases [OF assms] route_packet_def)
  have c: "filter is_crccheck ?cs =
       (if packet_ready (ir_faces s f) \<and> 2 \<le> unat ?n then [?c] else [])"
    by (simp add: is_crccheck_def word_less_nat_alt not_less)
  from a b c show ?thesis by blast
qed

section \<open>Lemmas: the example frames and states\<close>

text \<open>
  The CRC of the example frames, one byte at a time, and the fields of the example states.
\<close>

lemma funpow_8: "(f ^^ 8) x = f (f (f (f (f (f (f (f x)))))))"
  by (simp add: eval_nat_numeral)

lemma crc8_ccitt_update_FF_01: "crc8_ccitt_update 0xFF 0x01 = 0xF4"
  by (simp add: crc8_ccitt_update_def funpow_8 crc8_ccitt_shift_def)

lemma crc8_ccitt_update_F4_48: "crc8_ccitt_update 0xF4 0x48 = 0x3D"
  by (simp add: crc8_ccitt_update_def funpow_8 crc8_ccitt_shift_def)

lemma crc8_ccitt_update_3D_49: "crc8_ccitt_update 0x3D 0x49 = 0x4B"
  by (simp add: crc8_ccitt_update_def funpow_8 crc8_ccitt_shift_def)

lemma crc8_ccitt_update_FF_02: "crc8_ccitt_update 0xFF 0x02 = 0xFD"
  by (simp add: crc8_ccitt_update_def funpow_8 crc8_ccitt_shift_def)

lemma spec_crc8_01_48_49: "spec_crc8 [0x01, 0x48, 0x49] = 0x4B"
  by (simp add: spec_crc8_def crc8_ccitt_update_FF_01 crc8_ccitt_update_F4_48
      crc8_ccitt_update_3D_49)

lemma spec_crc8_02: "spec_crc8 [0x02] = 0xFD"
  by (simp add: spec_crc8_def crc8_ccitt_update_FF_02)

lemma init_buffers_simps [simp]:
  "ir_faces (fold init_buffer fs s) = ir_faces s"
  "calls (fold init_buffer fs s) = calls s"
  "ir_data_buffers (loopstate_in (fold init_buffer fs s)) f =
     (if f \<in> set fs then (ir_data_buffers (loopstate_in s) f)\<lparr>data := PacketBuffer f 1, ready_flag := 0\<rparr>
      else ir_data_buffers (loopstate_in s) f)"
  by (induction fs arbitrary: s) (auto simp: init_buffer_def)

lemma run_setup_simps [simp]:
  "ir_faces (run_setup s) = ir_faces s"
  "ir_data_buffers (loopstate_in (run_setup s)) f =
     (if f < IR_FACE_COUNT then (ir_data_buffers (loopstate_in s) f)\<lparr>data := PacketBuffer f 1, ready_flag := 0\<rparr>
      else ir_data_buffers (loopstate_in s) f)"
  by (simp_all add: run_setup_def postponeSleep_def)

lemma ir_receive_simps [simp]:
  "ir_faces (ir_receive f frame s) =
     (if packet_ready (ir_faces s f) \<or> 256 \<le> length frame then ir_faces s
      else (ir_faces s)(f := \<lparr>packet_ready = True, packet_len = of_nat (length frame), packet_buffer = frame\<rparr>))"
  "loopstate_in (ir_receive f frame s) = loopstate_in s"
  "calls (ir_receive f frame s) = calls s"
  by (simp_all add: ir_receive_def)

lemma length_frame_of: "frame_in_buffer x \<Longrightarrow> length (frame_of x) = unat (packet_len x)"
  by (simp add: frame_in_buffer_def frame_of_def)

lemma faces_okD: "faces_ok s \<Longrightarrow> f < IR_FACE_COUNT \<Longrightarrow> frame_in_buffer (ir_faces s f)"
  by (simp add: faces_ok_def list_all_iff)

lemma example_faces:
  "ir_faces face2_user_frame 2 =
     \<lparr>packet_ready = True, packet_len = 4, packet_buffer = [0x01, 0x48, 0x49, 0x4B]\<rparr>"
  "ir_faces face2_bad_checksum 2 =
     \<lparr>packet_ready = True, packet_len = 4, packet_buffer = [0x01, 0x48, 0x49, 0x00]\<rparr>"
  "ir_faces face0_short_frame 0 =
     \<lparr>packet_ready = True, packet_len = 1, packet_buffer = [0x07]\<rparr>"
  by (simp_all add: face2_user_frame_def face2_bad_checksum_def face0_short_frame_def power_on_def)

lemma example_faces_ok:
  "faces_ok face2_user_frame" "faces_ok face2_bad_checksum" "faces_ok face0_short_frame"
  by (simp_all add: faces_ok_def list_all_iff frame_in_buffer_def face2_user_frame_def
      face2_bad_checksum_def face0_short_frame_def power_on_def)

lemma example_buffers:
  "ir_data_buffers (loopstate_in face2_user_frame) 2 = \<lparr>data = PacketBuffer 2 1, len = 0, ready_flag = 0\<rparr>"
  "ir_data_buffers (loopstate_in face2_bad_checksum) 2 = \<lparr>data = PacketBuffer 2 1, len = 0, ready_flag = 0\<rparr>"
  "ir_data_buffers (loopstate_in face0_short_frame) 0 = \<lparr>data = PacketBuffer 0 1, len = 0, ready_flag = 0\<rparr>"
  by (simp_all add: face2_user_frame_def face2_bad_checksum_def face0_short_frame_def power_on_def
      IR_FACE_COUNT_def)

lemma example_checksums:
  "spec_checksum_ok [0x01, 0x48, 0x49, 0x4B]" "\<not> spec_checksum_ok [0x01, 0x48, 0x49, 0x00]"
  by (simp_all add: spec_checksum_ok_def spec_crc8_01_48_49)

lemma face_result_face2_user_frame:
  "face_result (face_view 2 face2_user_frame) =
      (\<lparr>packet_ready = True, packet_len = 4, packet_buffer = [0x01, 0x48, 0x49, 0x4B]\<rparr>,
       \<lparr>data = PacketBuffer 2 1, len = 3, ready_flag = 1\<rparr>)"
  by (simp add: face_view_def face_result_def example_faces example_buffers frame_of_def
      example_checksums)

text \<open>
  What the pipeline does with a valid user-data frame: the slot stays ready, the ready
  flag of the descriptor is set, and the length stored is the frame's length minus 1.
\<close>

lemma user_data_frame_surfaced:
  assumes "faces_ok s" and "f < IR_FACE_COUNT" and "packet_ready (ir_faces s f)"
    and "spec_user_data_frame (frame_of (ir_faces s f))"
  shows "\<exists>s'. processPendingIRPackets s = Some s' \<and> ir_faces s' f = ir_faces s f \<and>
           ir_data_buffers (loopstate_in s') f =
             (ir_data_buffers (loopstate_in s) f)
               \<lparr>len := packet_len (ir_faces s f) - 1, ready_flag := 1\<rparr>"
proof -
  have fb: "frame_in_buffer (ir_faces s f)"
    using assms(1,2) by (rule faces_okD)
  from processPendingIRPackets_effect [OF assms(1)]
  obtain s' where s': "processPendingIRPackets s = Some s'"
      "face_view f s' = face_result (face_view f s)"
    using assms(2) by auto
  have "face_result (face_view f s) =
      (ir_faces s f, (ir_data_buffers (loopstate_in s) f)
               \<lparr>len := packet_len (ir_faces s f) - 1, ready_flag := 1\<rparr>)"
    using assms(3,4) length_frame_of [OF fb]
    by (simp add: face_view_def face_result_def spec_user_data_frame_def)
  with s' show ?thesis
    by (simp add: face_view_def)
qed

section \<open>Lemmas: the timer callbacks\<close>

text \<open>
  One call of \<^verbatim>\<open>timer_256us_callback_sei\<close> from a remainder below 1000 leaves the
  remainder \<open>(r + 256) mod 1000\<close> and runs the millisecond callback \<open>(r + 256) div 1000\<close>
  times; \<open>n\<close> calls add up by induction.
\<close>

lemma ms_ticks_simps [simp]:
  "ms_ticks [] = 0"
  "ms_ticks (cs @ ds) = ms_ticks cs + ms_ticks ds"
  "ms_ticks (c # cs) = (if c = IncrementMillis1ms then 1 else 0) + ms_ticks cs"
  by (simp_all add: ms_ticks_def)

lemma timer_1000us_callback_sei_simps [simp]:
  "calls (timer_1000us_callback_sei u s) = calls s @ [IncrementMillis1ms, UpdateButtonState1ms]"
  "step_us (timer_1000us_callback_sei u s) = step_us s"
  "millis_counter (timer_1000us_callback_sei u s) = millis_counter s + 1"
  "millis_snapshot (timer_1000us_callback_sei u s) = millis_snapshot s"
  "loopstate_in (timer_1000us_callback_sei u s) = loopstate_in s"
  "loopstate_out (timer_1000us_callback_sei u s) = loopstate_out s"
  "ir_faces (timer_1000us_callback_sei u s) = ir_faces s"
  "pixel_buffer (timer_1000us_callback_sei u s) = pixel_buffer s"
  "asleep (timer_1000us_callback_sei u s) = asleep s"
  "buttonstate_global (timer_1000us_callback_sei u s) = snd u"
  "sleepTimer (timer_1000us_callback_sei u s) =
     (if fst u then \<lparr>m_expireTime = millis_snapshot s + SLEEP_TIMEOUT_MS\<rparr> else sleepTimer s)"
  by (simp_all add: timer_1000us_callback_sei_def updateButtonState1ms_def incrementMillis1ms_def
      postponeSleep_def Timer_set_def)

lemma acc_mod: "(r::nat) < 1000 \<Longrightarrow> (r + 256) mod 1000 = (if 1000 \<le> r + 256 then r + 256 - 1000 else r + 256)"
  by (auto simp: mod_if not_le)

lemma acc_div: "(r::nat) < 1000 \<Longrightarrow> (r + 256) div 1000 = (if 1000 \<le> r + 256 then 1 else 0)"
  by (auto simp: div_if not_le)

lemma acc_sum_div: "(a::nat) div 1000 + (a mod 1000 + b) div 1000 = (a + b) div 1000"
proof -
  have "a + b = (a mod 1000 + b) + (a div 1000) * 1000"
    by simp
  then have "(a + b) div 1000 = ((a mod 1000 + b) + (a div 1000) * 1000) div 1000"
    by (rule arg_cong)
  also have "\<dots> = a div 1000 + (a mod 1000 + b) div 1000"
    by (rule div_mult_self1) simp
  finally show ?thesis by simp
qed

lemma timer_256us_callback_sei_step:
  assumes "unat (step_us s) < 1000"
  shows "unat (step_us (timer_256us_callback_sei u s)) = (unat (step_us s) + 256) mod 1000"
    and "ms_ticks (calls (timer_256us_callback_sei u s)) =
           ms_ticks (calls s) + (unat (step_us s) + 256) div 1000"
    and "millis_counter (timer_256us_callback_sei u s) =
           millis_counter s + of_nat ((unat (step_us s) + 256) div 1000)"
proof -
  have a: "unat (step_us s + 256) = unat (step_us s) + 256"
    using assms by (simp add: unat_add_lem [THEN iffD1])
  have le: "(1000 \<le> step_us s + 256) = (1000 \<le> unat (step_us s) + 256)"
    using a by (simp add: word_le_nat_alt)
  have sub: "unat (step_us s + 256 - 1000) = unat (step_us s) + 256 - 1000"
    if "1000 \<le> unat (step_us s) + 256"
  proof -
    from that have "(1000 :: unsigned) \<le> step_us s + 256" by (simp only: le)
    from unat_sub [OF this] a show ?thesis by simp
  qed
  have sub': "unat (step_us s - 744) = unat (step_us s) - 744" if "744 \<le> unat (step_us s)"
    using sub that by simp
  show "unat (step_us (timer_256us_callback_sei u s)) = (unat (step_us s) + 256) mod 1000"
    unfolding acc_mod [OF assms]
    by (simp add: timer_256us_callback_sei_def Let_def le sub' a)
  show "ms_ticks (calls (timer_256us_callback_sei u s)) =
           ms_ticks (calls s) + (unat (step_us s) + 256) div 1000"
    unfolding acc_div [OF assms]
    by (simp add: timer_256us_callback_sei_def Let_def le)
  show "millis_counter (timer_256us_callback_sei u s) =
           millis_counter s + of_nat ((unat (step_us s) + 256) div 1000)"
    unfolding acc_div [OF assms]
    by (simp add: timer_256us_callback_sei_def Let_def le)
qed

lemma timer_256us_callback_sei_fold:
  "unat (step_us s) < 1000 \<Longrightarrow>
   unat (step_us (fold timer_256us_callback_sei us s)) = (unat (step_us s) + 256 * length us) mod 1000 \<and>
   ms_ticks (calls (fold timer_256us_callback_sei us s)) =
     ms_ticks (calls s) + (unat (step_us s) + 256 * length us) div 1000 \<and>
   millis_counter (fold timer_256us_callback_sei us s) =
     millis_counter s + of_nat ((unat (step_us s) + 256 * length us) div 1000)"
proof (induction us arbitrary: s)
  case Nil
  then show ?case by simp
next
  case (Cons u us)
  let ?s1 = "timer_256us_callback_sei u s"
  let ?a = "unat (step_us s) + 256" and ?b = "256 * length us"
  note st = timer_256us_callback_sei_step [OF Cons.prems, of u]
  have r1: "unat (step_us ?s1) < 1000" by (simp add: st(1))
  have e: "unat (step_us s) + 256 * length (u # us) = ?a + ?b" by simp
  have m: "(?a mod 1000 + ?b) mod 1000 = (?a + ?b) mod 1000"
    by (rule mod_add_left_eq)
  have d: "?a div 1000 + (?a mod 1000 + ?b) div 1000 = (?a + ?b) div 1000"
    by (rule acc_sum_div)
  from Cons.IH [OF r1]
  have "unat (step_us (fold timer_256us_callback_sei us ?s1)) = (?a mod 1000 + ?b) mod 1000"
    and "ms_ticks (calls (fold timer_256us_callback_sei us ?s1)) =
      ms_ticks (calls s) + ?a div 1000 + (?a mod 1000 + ?b) div 1000"
    and "millis_counter (fold timer_256us_callback_sei us ?s1) =
      millis_counter s + of_nat (?a div 1000) + of_nat ((?a mod 1000 + ?b) div 1000)"
    by (simp_all only: st)
  then show ?case
    unfolding e fold_simps m d [symmetric] by (simp only: of_nat_add add.assoc)
qed

section \<open>Lemmas: one pass of the main loop\<close>

text \<open>
  The fields of the state after each step of the loop body, and the body as a whole.
\<close>

lemma pixel_bufferedSetPixel_simps [simp]:
  "calls (pixel_bufferedSetPixel f color s) = calls s @ [Pixel_bufferedSetPixel f color]"
  "pixel_buffer (pixel_bufferedSetPixel f color s) = (pixel_buffer s)(f := color)"
  "loopstate_in (pixel_bufferedSetPixel f color s) = loopstate_in s"
  "loopstate_out (pixel_bufferedSetPixel f color s) = loopstate_out s"
  "sleepTimer (pixel_bufferedSetPixel f color s) = sleepTimer s"
  "buttonstate_global (pixel_bufferedSetPixel f color s) = buttonstate_global s"
  "step_us (pixel_bufferedSetPixel f color s) = step_us s"
  "millis_counter (pixel_bufferedSetPixel f color s) = millis_counter s"
  "millis_snapshot (pixel_bufferedSetPixel f color s) = millis_snapshot s"
  "ir_faces (pixel_bufferedSetPixel f color s) = ir_faces s"
  "asleep (pixel_bufferedSetPixel f color s) = asleep s"
  by (simp_all add: pixel_bufferedSetPixel_def)

lemma fold_forward_color:
  "loopstate_in (fold forward_color fs s) = loopstate_in s \<and>
   loopstate_out (fold forward_color fs s) = loopstate_out s \<and>
   sleepTimer (fold forward_color fs s) = sleepTimer s \<and>
   buttonstate_global (fold forward_color fs s) = buttonstate_global s \<and>
   step_us (fold forward_color fs s) = step_us s \<and>
   millis_counter (fold forward_color fs s) = millis_counter s \<and>
   millis_snapshot (fold forward_color fs s) = millis_snapshot s \<and>
   ir_faces (fold forward_color fs s) = ir_faces s \<and>
   asleep (fold forward_color fs s) = asleep s \<and>
   calls (fold forward_color fs s) =
     calls s @ map (\<lambda>f. Pixel_bufferedSetPixel f (colors (loopstate_out s) f))
                 (filter (\<lambda>f. reserved (colors (loopstate_out s) f) \<noteq> 0) fs) \<and>
   (\<forall>f. pixel_buffer (fold forward_color fs s) f =
     (if f \<in> set fs \<and> reserved (colors (loopstate_out s) f) \<noteq> 0
      then colors (loopstate_out s) f else pixel_buffer s f))"
proof (induction fs arbitrary: s)
  case Nil
  show ?case by simp
next
  case (Cons g fs)
  show ?case
    using Cons.IH [of "forward_color g s"]
    by (simp add: forward_color_def Let_def)
qed

lemma forward_colors_simps [simp]:
  "loopstate_in (forward_colors s) = loopstate_in s"
  "loopstate_out (forward_colors s) = loopstate_out s"
  "sleepTimer (forward_colors s) = sleepTimer s"
  "buttonstate_global (forward_colors s) = buttonstate_global s"
  "step_us (forward_colors s) = step_us s"
  "millis_counter (forward_colors s) = millis_counter s"
  "millis_snapshot (forward_colors s) = millis_snapshot s"
  "ir_faces (forward_colors s) = ir_faces s"
  "asleep (forward_colors s) = asleep s"
  "calls (forward_colors s) =
     calls s @ map (\<lambda>f. Pixel_bufferedSetPixel f (colors (loopstate_out s) f))
                 (dirty_faces (loopstate_out s))"
  "pixel_buffer (forward_colors s) f =
     (if f < PIXEL_FACE_COUNT \<and> reserved (colors (loopstate_out s) f) \<noteq> 0
      then colors (loopstate_out s) f else pixel_buffer s f)"
  using fold_forward_color [of "[0..<PIXEL_FACE_COUNT]" s]
  by (simp_all add: forward_colors_def dirty_faces_def)

lemma sleeps_simps [simp]:
  "sleeps [] = 0"
  "sleeps (cs @ ds) = sleeps cs + sleeps ds"
  "sleeps (c # cs) = (if c = Power_sleep then 1 else 0) + sleeps cs"
  by (simp_all add: sleeps_def)

lemma loop_inputs_simps [simp]:
  "loop_inputs [] = []"
  "loop_inputs (cs @ ds) = loop_inputs cs @ loop_inputs ds"
  "loop_inputs (c # cs) = (case c of LoopEntry li \<Rightarrow> [li] | _ \<Rightarrow> []) @ loop_inputs cs"
  by (simp_all add: loop_inputs_def)

lemma ir_calls_counts:
  "list_all ir_call cs \<Longrightarrow>
     sleeps cs = 0 \<and> ms_ticks cs = 0 \<and> loop_inputs cs = [] \<and> filter is_setPixel cs = []"
proof (induction cs)
  case Nil
  show ?case by simp
next
  case (Cons c cs)
  then have "ir_call c" and ih: "sleeps cs = 0 \<and> ms_ticks cs = 0 \<and> loop_inputs cs = [] \<and> filter is_setPixel cs = []"
    by simp_all
  from \<open>ir_call c\<close> have "c \<noteq> Power_sleep \<and> c \<noteq> IncrementMillis1ms \<and>
      (case c of LoopEntry li \<Rightarrow> [li] | _ \<Rightarrow> []) = [] \<and> \<not> is_setPixel c"
    by (cases c) (simp_all add: ir_call_def is_setPixel_def)
  with ih show ?case by simp
qed

lemma updateMillisSnapshot_simps [simp]:
  "calls (updateMillisSnapshot s) = calls s @ [UpdateMillisSnapshot]"
  "millis_snapshot (updateMillisSnapshot s) = millis_counter s"
  "millis_counter (updateMillisSnapshot s) = millis_counter s"
  "loopstate_in (updateMillisSnapshot s) = loopstate_in s"
  "loopstate_out (updateMillisSnapshot s) = loopstate_out s"
  "sleepTimer (updateMillisSnapshot s) = sleepTimer s"
  "buttonstate_global (updateMillisSnapshot s) = buttonstate_global s"
  "step_us (updateMillisSnapshot s) = step_us s"
  "ir_faces (updateMillisSnapshot s) = ir_faces s"
  "pixel_buffer (updateMillisSnapshot s) = pixel_buffer s"
  "asleep (updateMillisSnapshot s) = asleep s"
  by (simp_all add: updateMillisSnapshot_def)

lemma prepare_loopstate_in_effect:
  assumes "faces_ok s"
  shows "\<exists>s1. prepare_loopstate_in s = Some s1 \<and> prepare_effect s s1"
proof -
  let ?s0 = "updateMillisSnapshot s"
  have "faces_ok ?s0"
    using assms by (simp add: faces_ok_def)
  from processPendingIRPackets_effect [OF this]
  obtain s1 where s1: "processPendingIRPackets ?s0 = Some s1" "ir_effect ?s0 s1"
      and v1: "\<forall>g. face_view g s1 =
         (if g < IR_FACE_COUNT then face_result (face_view g ?s0) else face_view g ?s0)"
    by blast
  have v0: "face_view g ?s0 = face_view g s" for g
    by (simp add: face_view_def)
  let ?d = "(buttonstate (loopstate_in s1))\<lparr>bitflags := bitflags (buttonstate_global s1),
        clickcount := clickcount (buttonstate_global s1), down := down (buttonstate_global s1)\<rparr>"
  let ?s2 = "s1\<lparr>buttonstate_global := (buttonstate_global s1)\<lparr>bitflags := 0\<rparr>\<rparr>"
  let ?s3 = "?s2\<lparr>loopstate_in := (loopstate_in ?s2)\<lparr>buttonstate := ?d, millis := millis_snapshot ?s2\<rparr>\<rparr>"
  have p: "prepare_loopstate_in s = Some ?s3"
    by (simp add: prepare_loopstate_in_def s1(1) grabAndClearButtonState_def)
  have v3: "face_view g ?s3 = face_view g s1" for g
    by (simp add: face_view_def)
  from s1(2) obtain cs where cs: "calls s1 = calls s @ UpdateMillisSnapshot # cs" "list_all ir_call cs"
    by (auto simp: ir_effect_def)
  have "prepare_effect s ?s3"
    unfolding prepare_effect_def v3
    using s1(2) v1 cs by (simp add: ir_effect_def v0)
  with p show ?thesis by blast
qed

lemma call_loopEntry_simps [simp]:
  "calls (call_loopEntry loopEntry s) = calls s @ [LoopEntry (loopstate_in s)]"
  "loopstate_out (call_loopEntry loopEntry s) = loopEntry (loopstate_in s) (loopstate_out s)"
  "loopstate_in (call_loopEntry loopEntry s) = loopstate_in s"
  "sleepTimer (call_loopEntry loopEntry s) = sleepTimer s"
  "buttonstate_global (call_loopEntry loopEntry s) = buttonstate_global s"
  "step_us (call_loopEntry loopEntry s) = step_us s"
  "millis_counter (call_loopEntry loopEntry s) = millis_counter s"
  "millis_snapshot (call_loopEntry loopEntry s) = millis_snapshot s"
  "ir_faces (call_loopEntry loopEntry s) = ir_faces s"
  "pixel_buffer (call_loopEntry loopEntry s) = pixel_buffer s"
  "asleep (call_loopEntry loopEntry s) = asleep s"
  by (simp_all add: call_loopEntry_def)

lemma sleep_enter_simps [simp]:
  "calls (sleep_enter s) = calls s @ [Pixel_disable, Ir_disable, Button_ISR_on, Power_sleep]"
  "asleep (sleep_enter s) = True"
  "loopstate_in (sleep_enter s) = loopstate_in s"
  "loopstate_out (sleep_enter s) = loopstate_out s"
  "sleepTimer (sleep_enter s) = sleepTimer s"
  "buttonstate_global (sleep_enter s) = buttonstate_global s"
  "step_us (sleep_enter s) = step_us s"
  "millis_counter (sleep_enter s) = millis_counter s"
  "millis_snapshot (sleep_enter s) = millis_snapshot s"
  "ir_faces (sleep_enter s) = ir_faces s"
  "pixel_buffer (sleep_enter s) = pixel_buffer s"
  by (simp_all add: sleep_enter_def)

lemma sleep_exit_simps [simp]:
  "calls (sleep_exit s) = calls s @ [Button_ISR_off, Ir_enable, Pixel_enable]"
  "asleep (sleep_exit s) = False"
  "loopstate_in (sleep_exit s) = (loopstate_in s)\<lparr>woke_flag := 1\<rparr>"
  "loopstate_out (sleep_exit s) = loopstate_out s"
  "sleepTimer (sleep_exit s) = sleepTimer s"
  "buttonstate_global (sleep_exit s) = buttonstate_global s"
  "step_us (sleep_exit s) = step_us s"
  "millis_counter (sleep_exit s) = millis_counter s"
  "millis_snapshot (sleep_exit s) = millis_snapshot s"
  "ir_faces (sleep_exit s) = ir_faces s"
  "pixel_buffer (sleep_exit s) = pixel_buffer s"
  by (simp_all add: sleep_exit_def Let_def)

lemma check_sleepTimer_simps [simp]:
  "calls (check_sleepTimer s) =
     calls s @ (if m_expireTime (sleepTimer s) \<le> millis_snapshot s
                then [Pixel_disable, Ir_disable, Button_ISR_on, Power_sleep] else [])"
  "asleep (check_sleepTimer s) = (m_expireTime (sleepTimer s) \<le> millis_snapshot s \<or> asleep s)"
  "loopstate_in (check_sleepTimer s) = loopstate_in s"
  "loopstate_out (check_sleepTimer s) = loopstate_out s"
  "sleepTimer (check_sleepTimer s) = sleepTimer s"
  "buttonstate_global (check_sleepTimer s) = buttonstate_global s"
  "step_us (check_sleepTimer s) = step_us s"
  "millis_counter (check_sleepTimer s) = millis_counter s"
  "millis_snapshot (check_sleepTimer s) = millis_snapshot s"
  "ir_faces (check_sleepTimer s) = ir_faces s"
  "pixel_buffer (check_sleepTimer s) = pixel_buffer s"
  by (simp_all add: check_sleepTimer_def Timer_isExpired_def)

lemma loop_iteration_effect:
  assumes "faces_ok s"
  shows "\<exists>s1. prepare_loopstate_in s = Some s1 \<and> prepare_effect s s1 \<and>
           loop_iteration loopEntry s =
             Some (check_sleepTimer (log_call Pixel_displayBufferedPixels
                     (forward_colors (call_loopEntry loopEntry s1))))"
  using prepare_loopstate_in_effect [OF assms]
  by (auto simp: loop_iteration_def)

lemma filter_is_setPixel_map [simp]:
  "filter is_setPixel (map (\<lambda>f. Pixel_bufferedSetPixel f (c f)) fs) =
     map (\<lambda>f. Pixel_bufferedSetPixel f (c f)) fs"
  by (induction fs) (simp_all add: is_setPixel_def)

lemma fold_init_buffer_other [simp]:
  "loopstate_out (fold init_buffer fs s) = loopstate_out s"
  "sleepTimer (fold init_buffer fs s) = sleepTimer s"
  "buttonstate_global (fold init_buffer fs s) = buttonstate_global s"
  "step_us (fold init_buffer fs s) = step_us s"
  "millis_counter (fold init_buffer fs s) = millis_counter s"
  "millis_snapshot (fold init_buffer fs s) = millis_snapshot s"
  "pixel_buffer (fold init_buffer fs s) = pixel_buffer s"
  "asleep (fold init_buffer fs s) = asleep s"
  "buttonstate (loopstate_in (fold init_buffer fs s)) = buttonstate (loopstate_in s)"
  "millis (loopstate_in (fold init_buffer fs s)) = millis (loopstate_in s)"
  "woke_flag (loopstate_in (fold init_buffer fs s)) = woke_flag (loopstate_in s)"
  by (induction fs arbitrary: s) (simp_all add: init_buffer_def)

lemma run_setup_other [simp]:
  "calls (run_setup s) = calls s @ [Ir_enable, Pixel_enable, Button_enable_pu, SetupEntry]"
  "loopstate_out (run_setup s) = loopstate_out s"
  "sleepTimer (run_setup s) = \<lparr>m_expireTime = millis_snapshot s + SLEEP_TIMEOUT_MS\<rparr>"
  "buttonstate_global (run_setup s) = buttonstate_global s"
  "step_us (run_setup s) = step_us s"
  "millis_counter (run_setup s) = millis_counter s"
  "millis_snapshot (run_setup s) = millis_snapshot s"
  "pixel_buffer (run_setup s) = pixel_buffer s"
  "asleep (run_setup s) = asleep s"
  "buttonstate (loopstate_in (run_setup s)) = buttonstate (loopstate_in s)"
  "millis (loopstate_in (run_setup s)) = millis (loopstate_in s)"
  "woke_flag (loopstate_in (run_setup s)) = woke_flag (loopstate_in s)"
  by (simp_all add: run_setup_def postponeSleep_def Timer_set_def)

lemma faces_ok_run_setup [simp]: "faces_ok (run_setup s) = faces_ok s"
  by (simp add: faces_ok_def)

lemma faces_ok_power_on: "faces_ok power_on"
  by (simp add: faces_ok_def list_all_iff frame_in_buffer_def power_on_def)

lemma upt_6: "[0..<6] = [0, 1, 2, 3, 4, 5]"
  by (simp add: upt_rec)

section \<open>Lemmas: runs of the system\<close>

text \<open>
  From a state with well-formed slots every event has a next state, again with well-formed
  slots; so every run completes, and a reflexive and transitive relation that every event
  respects holds between the first and the last state of a run.
\<close>

lemma timer_256us_callback_sei_simps [simp]:
  "loopstate_in (timer_256us_callback_sei u s) = loopstate_in s"
  "loopstate_out (timer_256us_callback_sei u s) = loopstate_out s"
  "ir_faces (timer_256us_callback_sei u s) = ir_faces s"
  "pixel_buffer (timer_256us_callback_sei u s) = pixel_buffer s"
  "asleep (timer_256us_callback_sei u s) = asleep s"
  "calls (timer_256us_callback_sei u s) =
     calls s @ (if 1000 \<le> step_us s + 256 then [IncrementMillis1ms, UpdateButtonState1ms] else [])"
  by (simp_all add: timer_256us_callback_sei_def Let_def)

lemma ir_receive_other [simp]:
  "loopstate_out (ir_receive f frame s) = loopstate_out s"
  "sleepTimer (ir_receive f frame s) = sleepTimer s"
  "buttonstate_global (ir_receive f frame s) = buttonstate_global s"
  "step_us (ir_receive f frame s) = step_us s"
  "millis_counter (ir_receive f frame s) = millis_counter s"
  "millis_snapshot (ir_receive f frame s) = millis_snapshot s"
  "pixel_buffer (ir_receive f frame s) = pixel_buffer s"
  "asleep (ir_receive f frame s) = asleep s"
  by (simp_all add: ir_receive_def)

lemma faces_ok_ir_receive: "faces_ok s \<Longrightarrow> faces_ok (ir_receive f frame s)"
  by (auto simp: faces_ok_def list_all_iff frame_in_buffer_def unat_of_nat)

lemma faces_ok_prepare:
  assumes "faces_ok s" and "prepare_effect s s1"
  shows "faces_ok s1"
proof -
  have "frame_in_buffer (ir_faces s1 g)" if "g < IR_FACE_COUNT" for g
  proof -
    from assms(2) that have "face_view g s1 = face_result (face_view g s)"
      by (simp add: prepare_effect_def)
    then have "ir_faces s1 g = fst (face_result (face_view g s))"
      by (simp add: face_view_def) (metis fst_conv)
    moreover have "frame_in_buffer (fst (face_view g s))"
      using faces_okD [OF assms(1) that] by (simp add: face_view_def)
    ultimately show ?thesis
      by (simp add: frame_in_buffer_face_result)
  qed
  then show ?thesis
    by (simp add: faces_ok_def list_all_iff)
qed

lemma step_Main_loop:
  assumes "faces_ok s" and "\<not> asleep s"
  shows "\<exists>s1. prepare_effect s s1 \<and> faces_ok s1 \<and>
     step loopEntry Main_loop s =
       Some (check_sleepTimer (log_call Pixel_displayBufferedPixels
               (forward_colors (call_loopEntry loopEntry s1))))"
  using loop_iteration_effect [OF assms(1), of loopEntry] assms(2) faces_ok_prepare [OF assms(1)]
  by (auto simp: step_def)

lemma step_total:
  assumes "faces_ok s"
  shows "\<exists>s'. step loopEntry e s = Some s' \<and> faces_ok s'"
proof (cases e)
  case Main_loop
  show ?thesis
  proof (cases "asleep s")
    case True
    with assms Main_loop show ?thesis by (simp add: step_def)
  next
    case False
    from step_Main_loop [OF assms False, of loopEntry] Main_loop show ?thesis
      by (auto simp: faces_ok_def)
  qed
qed (use assms in \<open>auto simp: step_def faces_ok_ir_receive\<close>, auto simp: faces_ok_def)

lemma exec_append:
  "exec loopEntry (es @ es') s =
     (case exec loopEntry es s of None \<Rightarrow> None | Some s' \<Rightarrow> exec loopEntry es' s')"
  by (induction es arbitrary: s) (auto split: option.splits)

lemma exec_relation:
  assumes "faces_ok s"
    and refl: "\<And>s. R s s"
    and trans: "\<And>a b c. R a b \<Longrightarrow> R b c \<Longrightarrow> R a c"
    and step: "\<And>e s s'. faces_ok s \<Longrightarrow> step loopEntry e s = Some s' \<Longrightarrow> R s s'"
  shows "\<exists>s'. exec loopEntry es s = Some s' \<and> faces_ok s' \<and> R s s'"
  using assms(1)
proof (induction es arbitrary: s)
  case Nil
  then show ?case by (simp add: refl)
next
  case (Cons e es)
  from step_total [OF Cons.prems, of loopEntry e]
  obtain s1 where s1: "step loopEntry e s = Some s1" "faces_ok s1" by blast
  from Cons.IH [OF s1(2)] obtain s' where s': "exec loopEntry es s1 = Some s'" "faces_ok s'" "R s1 s'"
    by blast
  from step [OF Cons.prems s1(1)] s'(3) have "R s s'" by (rule trans)
  with s1(1) s'(1,2) show ?case by simp
qed

lemma setPixel_counts [simp]:
  "sleeps (map (\<lambda>f. Pixel_bufferedSetPixel f (c f)) fs) = 0"
  "ms_ticks (map (\<lambda>f. Pixel_bufferedSetPixel f (c f)) fs) = 0"
  "loop_inputs (map (\<lambda>f. Pixel_bufferedSetPixel f (c f)) fs) = []"
  by (induction fs) simp_all

lemma Main_loop_effect:
  assumes "faces_ok s" and "\<not> asleep s"
  shows "\<exists>s1 s' cs. prepare_effect s s1 \<and> step loopEntry Main_loop s = Some s' \<and> faces_ok s' \<and>
     loopstate_in s' = loopstate_in s1 \<and> sleepTimer s' = sleepTimer s \<and>
     millis_counter s' = millis_counter s \<and> millis_snapshot s' = millis_counter s \<and>
     asleep s' = (m_expireTime (sleepTimer s) \<le> millis_counter s) \<and>
     calls s' = calls s @ cs \<and>
     sleeps cs = (if m_expireTime (sleepTimer s) \<le> millis_counter s then 1 else 0) \<and>
     ms_ticks cs = 0 \<and> loop_inputs cs = [loopstate_in s1]"
proof -
  from step_Main_loop [OF assms, of loopEntry]
  obtain s1 where s1: "prepare_effect s s1" "faces_ok s1"
    and st: "step loopEntry Main_loop s =
       Some (check_sleepTimer (log_call Pixel_displayBufferedPixels
               (forward_colors (call_loopEntry loopEntry s1))))"
    by blast
  let ?s' = "check_sleepTimer (log_call Pixel_displayBufferedPixels
               (forward_colors (call_loopEntry loopEntry s1)))"
  let ?out = "loopEntry (loopstate_in s1) (loopstate_out s1)"
  from s1(1) obtain cs1 where cs1: "calls s1 = calls s @ UpdateMillisSnapshot # cs1" "list_all ir_call cs1"
    and eq: "sleepTimer s1 = sleepTimer s" "millis_counter s1 = millis_counter s"
      "millis_snapshot s1 = millis_counter s" "asleep s1 = asleep s"
    by (auto simp: prepare_effect_def)
  let ?cs = "UpdateMillisSnapshot # cs1 @ [LoopEntry (loopstate_in s1)] @
      map (\<lambda>f. Pixel_bufferedSetPixel f (colors ?out f)) (dirty_faces ?out) @
      [Pixel_displayBufferedPixels] @
      (if m_expireTime (sleepTimer s) \<le> millis_counter s
       then [Pixel_disable, Ir_disable, Button_ISR_on, Power_sleep] else [])"
  have ok: "faces_ok ?s'"
    using s1(2) by (simp add: faces_ok_def)
  have f: "loopstate_in ?s' = loopstate_in s1" "sleepTimer ?s' = sleepTimer s"
    "millis_counter ?s' = millis_counter s" "millis_snapshot ?s' = millis_counter s"
    "asleep ?s' = (m_expireTime (sleepTimer s) \<le> millis_counter s)"
    using assms(2) by (simp_all add: eq)
  have c: "calls ?s' = calls s @ ?cs"
    by (simp add: eq cs1)
  have n: "sleeps ?cs = (if m_expireTime (sleepTimer s) \<le> millis_counter s then 1 else 0)"
    "ms_ticks ?cs = 0" "loop_inputs ?cs = [loopstate_in s1]"
    using ir_calls_counts [OF cs1(2)] by simp_all
  from s1(1) st ok f c n show ?thesis
    by (intro exI [of _ s1] exI [of _ ?s'] exI [of _ ?cs]) (simp only: simp_thms)
qed

lemma face_result_descriptor:
  "data (snd (face_result v)) = data (snd v) \<and>
   (ready_flag (snd v) = 1 \<longrightarrow> ready_flag (snd (face_result v)) = 1)"
  by (cases v) (simp add: face_result_def)

lemma prepare_effect_descriptors:
  assumes "prepare_effect s s1"
  shows "descriptors_kept s s1"
proof -
  have "data (ir_data_buffers (loopstate_in s1) f) = data (ir_data_buffers (loopstate_in s) f) \<and>
      (ready_flag (ir_data_buffers (loopstate_in s) f) = 1 \<longrightarrow>
       ready_flag (ir_data_buffers (loopstate_in s1) f) = 1)" for f
  proof -
    from assms have e: "face_view f s1 =
        (if f < IR_FACE_COUNT then face_result (face_view f s) else face_view f s)"
      by (simp add: prepare_effect_def)
    have "ir_data_buffers (loopstate_in s1) f = snd (face_view f s1)"
      by (simp add: face_view_def)
    also have "\<dots> = snd (if f < IR_FACE_COUNT then face_result (face_view f s) else face_view f s)"
      by (simp only: e)
    finally show ?thesis
      using face_result_descriptor [of "face_view f s"] by (simp add: face_view_def)
  qed
  then show ?thesis by (simp add: descriptors_kept_def)
qed

lemma descriptors_kept_refl: "descriptors_kept s s"
  by (simp add: descriptors_kept_def)

lemma descriptors_kept_trans:
  "descriptors_kept a b \<Longrightarrow> descriptors_kept b c \<Longrightarrow> descriptors_kept a c"
  by (simp add: descriptors_kept_def)

lemma descriptors_kept_eq: "loopstate_in s' = loopstate_in s \<Longrightarrow> descriptors_kept s s'"
  by (simp add: descriptors_kept_def)

lemma step_descriptors_kept:
  assumes "faces_ok s" and "step loopEntry e s = Some s'"
  shows "descriptors_kept s s'"
proof (cases e)
  case Main_loop
  show ?thesis
  proof (cases "asleep s")
    case True
    with assms Main_loop show ?thesis by (simp add: step_def descriptors_kept_refl)
  next
    case False
    from Main_loop_effect [OF assms(1) False, of loopEntry] assms(2) Main_loop
    obtain s1 where "prepare_effect s s1" "loopstate_in s' = loopstate_in s1"
      by auto
    then show ?thesis
      using prepare_effect_descriptors [of s s1] by (simp add: descriptors_kept_def)
  qed
next
  case Button_wake
  with assms show ?thesis by (auto simp: step_def descriptors_kept_def)
qed (use assms in \<open>auto simp: step_def intro: descriptors_kept_eq\<close>)

lemma exec_descriptors_kept:
  assumes "faces_ok s"
  shows "\<exists>s'. exec loopEntry es s = Some s' \<and> faces_ok s' \<and> descriptors_kept s s'"
  using assms
  by (rule exec_relation [where R = descriptors_kept])
     (auto intro: descriptors_kept_refl descriptors_kept_trans step_descriptors_kept)

lemma asleep_face2_user_frame: "\<not> asleep face2_user_frame"
  by (simp add: face2_user_frame_def power_on_def)

lemma exec_face2_user_frame:
  "\<exists>s1. exec loopEntry [Ir_frame 2 [0x01, 0x48, 0x49, 0x4B], Main_loop] (run_setup power_on) = Some s1 \<and>
     ir_data_buffers (loopstate_in s1) 2 = \<lparr>data = PacketBuffer 2 1, len = 3, ready_flag = 1\<rparr>"
proof -
  from Main_loop_effect [OF example_faces_ok(1) asleep_face2_user_frame, of loopEntry]
  obtain s1 s' where a: "prepare_effect face2_user_frame s1"
      "step loopEntry Main_loop face2_user_frame = Some s'" "loopstate_in s' = loopstate_in s1"
    by blast
  from a(1) have "face_view 2 s1 = face_result (face_view 2 face2_user_frame)"
    by (simp add: prepare_effect_def IR_FACE_COUNT_def)
  then have "ir_data_buffers (loopstate_in s1) 2 = \<lparr>data = PacketBuffer 2 1, len = 3, ready_flag = 1\<rparr>"
    unfolding face_result_face2_user_frame by (simp add: face_view_def)
  with a(2,3) show ?thesis
    by (simp add: step_def face2_user_frame_def)
qed

section \<open>Lemmas: the sleep timeout\<close>

text \<open>
  A quiet run from start-up keeps the deadline at 600000 and the counter at the number
  of ticks; a pass of the main loop enters sleep exactly when the counter has reached
  the deadline, and a quiet run never leaves sleep.
\<close>

lemma SLEEP_TIMEOUT_MS_value: "SLEEP_TIMEOUT_MS = 600000"
  by (simp add: SLEEP_TIMEOUT_MS_def SLEEP_TIMEOUT_SECONDS_def MILLIS_PER_SECOND_def)

lemma timeout_le_of_nat:
  "n \<le> 600000 \<Longrightarrow> ((600000 :: millis_t) \<le> of_nat n) = (n = 600000)"
  by (auto simp: word_le_nat_alt unat_of_nat)

lemma ticks_simps [simp]:
  "ticks [] = 0"
  "ticks (e # es) = (if is_tick e then 1 else 0) + ticks es"
  "ticks (es @ es') = ticks es + ticks es'"
  by (simp_all add: ticks_def)

lemma awaiting_timeout_step:
  assumes "quiet e" and "awaiting_timeout n s" and "n + (if is_tick e then 1 else 0) \<le> 600000"
  shows "\<exists>s'. step loopEntry e s = Some s' \<and> awaiting_timeout (n + (if is_tick e then 1 else 0)) s'"
proof (cases e)
  case (Timer_1000us u)
  with assms show ?thesis
    by (auto simp: step_def quiet_def is_tick_def awaiting_timeout_def faces_ok_def)
next
  case Main_loop
  show ?thesis
  proof (cases "asleep s")
    case True
    with assms Main_loop show ?thesis by (simp add: step_def is_tick_def)
  next
    case False
    from assms(2) have ok: "faces_ok s" by (simp add: awaiting_timeout_def)
    from Main_loop_effect [OF ok False, of loopEntry]
    obtain s' cs where a: "step loopEntry Main_loop s = Some s'" "faces_ok s'"
        "sleepTimer s' = sleepTimer s" "millis_counter s' = millis_counter s"
        "millis_snapshot s' = millis_counter s"
        "asleep s' = (m_expireTime (sleepTimer s) \<le> millis_counter s)"
        "calls s' = calls s @ cs"
        "sleeps cs = (if m_expireTime (sleepTimer s) \<le> millis_counter s then 1 else 0)"
      by blast
    from assms(3) Main_loop have n: "n \<le> 600000" by (simp add: is_tick_def)
    have "awaiting_timeout n s'"
      using assms(2) False a(2-8) timeout_le_of_nat [OF n]
      by (auto simp: awaiting_timeout_def SLEEP_TIMEOUT_MS_value)
    with a(1) Main_loop show ?thesis by (simp add: is_tick_def)
  qed
next
  case (Ir_frame f frame)
  with assms show ?thesis
    by (auto simp: step_def is_tick_def awaiting_timeout_def faces_ok_ir_receive)
qed (use assms in \<open>simp_all add: quiet_def\<close>)

lemma awaiting_timeout_exec:
  "list_all quiet es \<Longrightarrow> awaiting_timeout n s \<Longrightarrow> n + ticks es \<le> 600000 \<Longrightarrow>
   \<exists>s'. exec loopEntry es s = Some s' \<and> awaiting_timeout (n + ticks es) s'"
proof (induction es arbitrary: n s)
  case Nil
  then show ?case by simp
next
  case (Cons e es)
  let ?k = "if is_tick e then 1 else 0 :: nat"
  from Cons.prems have q: "quiet e" "list_all quiet es" and le: "n + ?k \<le> 600000"
    by simp_all
  from awaiting_timeout_step [OF q(1) Cons.prems(2) le, of loopEntry]
  obtain s1 where s1: "step loopEntry e s = Some s1" "awaiting_timeout (n + ?k) s1"
    by blast
  have "n + ?k + ticks es \<le> 600000" using Cons.prems(3) by simp
  from Cons.IH [OF q(2) s1(2) this]
  obtain s' where "exec loopEntry es s1 = Some s'" "awaiting_timeout (n + ?k + ticks es) s'"
    by blast
  with s1(1) show ?case by (simp add: add.assoc)
qed

lemma slept_step:
  assumes "quiet e" and "slept s"
  shows "\<exists>s'. step loopEntry e s = Some s' \<and> slept s'"
proof (cases e)
  case (Timer_1000us u)
  with assms show ?thesis
    by (auto simp: step_def slept_def faces_ok_def)
next
  case (Ir_frame f frame)
  with assms show ?thesis
    by (auto simp: step_def slept_def faces_ok_ir_receive)
qed (use assms in \<open>simp_all add: quiet_def step_def slept_def\<close>)

lemma slept_exec:
  "list_all quiet es \<Longrightarrow> slept s \<Longrightarrow> \<exists>s'. exec loopEntry es s = Some s' \<and> slept s'"
proof (induction es arbitrary: s)
  case Nil
  then show ?case by simp
next
  case (Cons e es)
  from Cons.prems have q: "quiet e" "list_all quiet es" by simp_all
  from slept_step [OF q(1) Cons.prems(2), of loopEntry]
  obtain s1 where s1: "step loopEntry e s = Some s1" "slept s1" by blast
  from Cons.IH [OF q(2) s1(2)] s1(1) show ?case by simp
qed

lemma awaiting_timeout_run_setup:
  assumes "booted p"
  shows "awaiting_timeout 0 (run_setup p)"
  using assms by (simp add: booted_def awaiting_timeout_def)

lemma awaiting_timeout_sleeps:
  assumes "awaiting_timeout 600000 s"
  shows "\<exists>s'. step loopEntry Main_loop s = Some s' \<and> slept s' \<and> awaiting_timeout 600000 s'"
proof -
  have q: "quiet Main_loop" and t: "\<not> is_tick Main_loop"
    by (simp_all add: quiet_def is_tick_def)
  from awaiting_timeout_step [OF q assms, of loopEntry] t
  obtain s' where s': "step loopEntry Main_loop s = Some s'" "awaiting_timeout 600000 s'"
    by auto
  have "asleep s'"
  proof (cases "asleep s")
    case True
    with s'(1) show ?thesis by (simp add: step_def)
  next
    case False
    from assms have ok: "faces_ok s" by (simp add: awaiting_timeout_def)
    from Main_loop_effect [OF ok False, of loopEntry] s'(1)
    have "asleep s' = (m_expireTime (sleepTimer s) \<le> millis_counter s)" by auto
    with assms show ?thesis by (simp add: awaiting_timeout_def SLEEP_TIMEOUT_MS_value)
  qed
  with s' show ?thesis by (auto simp: slept_def awaiting_timeout_def)
qed

lemma booted_power_on: "booted power_on"
  by (simp add: booted_def faces_ok_power_on) (simp add: power_on_def)

lemma quiet_ticks:
  "list_all quiet (replicate n quiet_tick)" "ticks (replicate n quiet_tick) = n"
  by (simp_all add: list_all_iff quiet_def quiet_tick_def ticks_def is_tick_def filter_replicate)

section \<open>Lemmas: the woke flag\<close>

text \<open>
  No event turns a woke flag of 1 into another value, and a pass of the main loop hands
  the user callback the flag as it stands.
\<close>

lemma woke_kept_refl: "woke_kept s s"
  by (simp add: woke_kept_def)

lemma woke_kept_trans:
  assumes "woke_kept a b" and "woke_kept b c"
  shows "woke_kept a c"
proof (cases "woke_flag (loopstate_in a) = 1")
  case False
  then show ?thesis by (simp add: woke_kept_def)
next
  case True
  with assms(1) obtain cs where ab: "woke_flag (loopstate_in b) = 1" "calls b = calls a @ cs"
      "list_all (\<lambda>li. woke_flag li = 1) (loop_inputs cs)"
    by (auto simp: woke_kept_def)
  with assms(2) obtain ds where bc: "woke_flag (loopstate_in c) = 1" "calls c = calls b @ ds"
      "list_all (\<lambda>li. woke_flag li = 1) (loop_inputs ds)"
    by (auto simp: woke_kept_def)
  have "calls c = calls a @ (cs @ ds)" "list_all (\<lambda>li. woke_flag li = 1) (loop_inputs (cs @ ds))"
    using ab bc by simp_all
  with bc(1) show ?thesis unfolding woke_kept_def by blast
qed

lemma step_woke_kept:
  assumes "faces_ok s" and "step loopEntry e s = Some s'"
  shows "woke_kept s s'"
proof (cases e)
  case Main_loop
  show ?thesis
  proof (cases "asleep s")
    case True
    with assms Main_loop show ?thesis by (simp add: step_def woke_kept_refl)
  next
    case False
    from Main_loop_effect [OF assms(1) False, of loopEntry] assms(2) Main_loop
    obtain s1 cs where a: "prepare_effect s s1" "loopstate_in s' = loopstate_in s1"
        "calls s' = calls s @ cs" "loop_inputs cs = [loopstate_in s1]"
      by auto
    from a(1) have "woke_flag (loopstate_in s1) = woke_flag (loopstate_in s)"
      by (simp add: prepare_effect_def)
    with a(2-4) show ?thesis
      unfolding woke_kept_def by (intro impI conjI exI [of _ cs]) simp_all
  qed
next
  case (Timer_256us u)
  with assms have "loopstate_in s' = loopstate_in s"
    "calls s' = calls s @ (if 1000 \<le> step_us s + 256 then [IncrementMillis1ms, UpdateButtonState1ms] else [])"
    by (auto simp: step_def)
  then show ?thesis
    unfolding woke_kept_def
    by (intro impI conjI exI [of _ "if 1000 \<le> step_us s + 256 then [IncrementMillis1ms, UpdateButtonState1ms] else []"])
      simp_all
next
  case (Timer_1000us u)
  with assms have "loopstate_in s' = loopstate_in s"
    "calls s' = calls s @ [IncrementMillis1ms, UpdateButtonState1ms]"
    by (auto simp: step_def)
  then show ?thesis
    unfolding woke_kept_def
    by (intro impI conjI exI [of _ "[IncrementMillis1ms, UpdateButtonState1ms]"]) simp_all
next
  case Button_wake
  show ?thesis
  proof (cases "asleep s")
    case True
    with assms Button_wake have "woke_flag (loopstate_in s') = 1"
      "calls s' = calls s @ [Button_ISR_off, Ir_enable, Pixel_enable]"
      by (auto simp: step_def)
    then show ?thesis
      unfolding woke_kept_def
      by (intro impI conjI exI [of _ "[Button_ISR_off, Ir_enable, Pixel_enable]"]) simp_all
  next
    case False
    with assms Button_wake show ?thesis by (simp add: step_def woke_kept_refl)
  qed
next
  case (Ir_frame f frame)
  with assms have "loopstate_in s' = loopstate_in s" "calls s' = calls s @ []"
    by (auto simp: step_def)
  then show ?thesis
    unfolding woke_kept_def by (intro impI conjI exI [of _ "[]"]) simp_all
qed

lemma exec_woke_kept:
  assumes "faces_ok s"
  shows "\<exists>s'. exec loopEntry es s = Some s' \<and> faces_ok s' \<and> woke_kept s s'"
  using assms
  by (rule exec_relation [where R = woke_kept])
     (auto intro: woke_kept_refl woke_kept_trans step_woke_kept)

lemma asleep_after_timeout_facts:
  "slept asleep_after_timeout" "awaiting_timeout 600000 asleep_after_timeout"
proof -
  note init = awaiting_timeout_run_setup [OF booted_power_on]
  from awaiting_timeout_exec [OF quiet_ticks(1) init, of 600000 example_loopEntry]
  obtain s1 where s1: "exec example_loopEntry (replicate 600000 quiet_tick) (run_setup power_on) = Some s1"
      "awaiting_timeout 600000 s1"
    by (auto simp: quiet_ticks(2))
  from awaiting_timeout_sleeps [OF s1(2), of example_loopEntry]
  obtain s2 where s2: "step example_loopEntry Main_loop s1 = Some s2" "slept s2"
      "awaiting_timeout 600000 s2"
    by blast
  have "asleep_after_timeout = s2"
    by (simp add: asleep_after_timeout_def exec_append s1(1) s2(1))
  with s2 show "slept asleep_after_timeout" "awaiting_timeout 600000 asleep_after_timeout"
    by simp_all
qed

lemma Main_loop_awake:
  assumes "faces_ok s" and "\<not> asleep s" and "\<not> m_expireTime (sleepTimer s) \<le> millis_counter s"
  shows "\<exists>s' cs li. step loopEntry Main_loop s = Some s' \<and> faces_ok s' \<and> \<not> asleep s' \<and>
     sleepTimer s' = sleepTimer s \<and> millis_counter s' = millis_counter s \<and>
     woke_flag (loopstate_in s') = woke_flag (loopstate_in s) \<and>
     calls s' = calls s @ cs \<and> sleeps cs = 0 \<and> loop_inputs cs = [li] \<and>
     woke_flag li = woke_flag (loopstate_in s)"
proof -
  from Main_loop_effect [OF assms(1,2), of loopEntry]
  obtain s1 s' cs where a: "prepare_effect s s1" "step loopEntry Main_loop s = Some s'"
      "faces_ok s'" "loopstate_in s' = loopstate_in s1" "sleepTimer s' = sleepTimer s"
      "millis_counter s' = millis_counter s"
      "asleep s' = (m_expireTime (sleepTimer s) \<le> millis_counter s)"
      "calls s' = calls s @ cs"
      "sleeps cs = (if m_expireTime (sleepTimer s) \<le> millis_counter s then 1 else 0)"
      "loop_inputs cs = [loopstate_in s1]"
    by blast
  from a(1) have w: "woke_flag (loopstate_in s1) = woke_flag (loopstate_in s)"
    by (simp add: prepare_effect_def)
  from a(2-10) w assms(3) show ?thesis
    by (intro exI [of _ s'] exI [of _ cs] exI [of _ "loopstate_in s1"]) simp
qed

lemma wake_then_two_passes_run:
  "\<exists>s' cs. exec example_loopEntry wake_then_two_passes asleep_after_timeout = Some s' \<and>
     calls s' = calls asleep_after_timeout @ cs \<and> sleeps cs = 0 \<and> \<not> asleep s' \<and>
     map woke_flag (loop_inputs cs) = [1, 1]"
proof -
  let ?S = asleep_after_timeout
  let ?u = "(True, buttonstate_global power_on)"
  from asleep_after_timeout_facts
  have S: "faces_ok ?S" "asleep ?S" "millis_counter ?S = 600000" "millis_snapshot ?S = 600000"
    by (simp_all add: slept_def awaiting_timeout_def)
  let ?a = "sleep_exit ?S"
  let ?b = "timer_1000us_callback_sei ?u ?a"
  have st1: "step example_loopEntry Button_wake ?S = Some ?a"
    using S(2) by (simp add: step_def)
  have st2: "step example_loopEntry (Timer_1000us ?u) ?a = Some ?b"
    by (simp add: step_def)
  have b: "faces_ok ?b" "\<not> asleep ?b" "woke_flag (loopstate_in ?b) = 1"
    "calls ?b = calls ?S @ [Button_ISR_off, Ir_enable, Pixel_enable, IncrementMillis1ms, UpdateButtonState1ms]"
    using S(1) by (simp_all add: faces_ok_def)
  have t: "m_expireTime (sleepTimer ?b) = 1200000" "millis_counter ?b = 600001"
    by (simp_all add: S SLEEP_TIMEOUT_MS_value)
  have nb: "\<not> m_expireTime (sleepTimer ?b) \<le> millis_counter ?b"
    by (simp only: t) simp
  from Main_loop_awake [OF b(1,2) nb, of example_loopEntry]
  obtain c cs li where c: "step example_loopEntry Main_loop ?b = Some c" "faces_ok c" "\<not> asleep c"
      "sleepTimer c = sleepTimer ?b" "millis_counter c = millis_counter ?b"
      "woke_flag (loopstate_in c) = woke_flag (loopstate_in ?b)"
      "calls c = calls ?b @ cs" "sleeps cs = 0" "loop_inputs cs = [li]"
      "woke_flag li = woke_flag (loopstate_in ?b)"
    by blast
  have nc: "\<not> m_expireTime (sleepTimer c) \<le> millis_counter c"
    unfolding c(4,5) by (rule nb)
  from Main_loop_awake [OF c(2,3) nc, of example_loopEntry]
  obtain d ds lj where d: "step example_loopEntry Main_loop c = Some d" "\<not> asleep d"
      "calls d = calls c @ ds" "sleeps ds = 0" "loop_inputs ds = [lj]"
      "woke_flag lj = woke_flag (loopstate_in c)"
    by blast
  let ?cs = "[Button_ISR_off, Ir_enable, Pixel_enable, IncrementMillis1ms, UpdateButtonState1ms] @ cs @ ds"
  have run: "exec example_loopEntry wake_then_two_passes ?S = Some d"
    by (simp add: wake_then_two_passes_def st1 st2 c(1) d(1))
  have calls: "calls d = calls ?S @ ?cs"
    by (simp add: d(3) c(7) b(4))
  have cnt: "sleeps ?cs = 0" "map woke_flag (loop_inputs ?cs) = [1, 1]"
    using c(8,9,10) d(4,5,6) c(6) b(3) by simp_all
  from run calls cnt d(2) show ?thesis
    by (intro exI [of _ d] exI [of _ ?cs]) (simp only: simp_thms)
qed

section \<open>The claims\<close>

subsection \<open>C1\<close>

text \<open>
  Claim C1. A valid frame with header 0x01 is surfaced on its face: the ready flag is set
  and the pipeline does not mark the frame consumed. The claim also says that the length
  of the descriptor is the frame length minus 2. Line 180 stores \<^verbatim>\<open>packetLen-1\<close>
  (lemma \<open>user_data_frame_surfaced\<close>): for the valid four-byte frame \<open>01 48 49 4B\<close> on
  face 2 the pipeline sets the length 3, which counts the trailing checksum byte, where
  the claim says 2.
\<close>

theorem user_frame_len_off_by_one:
  "length (frame_of (ir_faces face2_user_frame 2)) = 4 \<and>
   spec_user_data_frame (frame_of (ir_faces face2_user_frame 2)) \<and>
   processPendingIRPackets face2_user_frame \<noteq> None \<and>
   len (ir_data_buffers (loopstate_in (the (processPendingIRPackets face2_user_frame))) 2) = 3 \<and>
   ready_flag (ir_data_buffers (loopstate_in (the (processPendingIRPackets face2_user_frame))) 2) = 1 \<and>
   packet_ready (ir_faces (the (processPendingIRPackets face2_user_frame)) 2)"
proof -
  from processPendingIRPackets_effect [OF example_faces_ok(1)]
  obtain s' where s': "processPendingIRPackets face2_user_frame = Some s'"
      "face_view 2 s' = face_result (face_view 2 face2_user_frame)"
    by (auto simp: IR_FACE_COUNT_def)
  from s'(2) have "ir_faces s' 2 =
      \<lparr>packet_ready = True, packet_len = 4, packet_buffer = [0x01, 0x48, 0x49, 0x4B]\<rparr>"
    and "ir_data_buffers (loopstate_in s') 2 = \<lparr>data = PacketBuffer 2 1, len = 3, ready_flag = 1\<rparr>"
    unfolding face_result_face2_user_frame by (simp_all add: face_view_def)
  with s'(1) show ?thesis
    by (simp add: example_faces frame_of_def example_checksums spec_user_data_frame_def)
qed

subsection \<open>C2\<close>

text \<open>
  Claim C2. For a ready frame of at least 2 bytes, \<^verbatim>\<open>crccheck\<close> returns true exactly
  when the final byte equals the CRC (seed 0xFF) of all bytes before it. A frame that
  passes is routed on its header byte; a frame that fails is marked consumed and the
  face's descriptor is left as it was.
\<close>

theorem checksum_decides_validity:
  assumes "faces_ok s" and "f < IR_FACE_COUNT" and "packet_ready (ir_faces s f)"
    and "2 \<le> unat (packet_len (ir_faces s f))"
  shows "crccheck (packet_buffer (ir_faces s f)) (packet_len (ir_faces s f)) =
           Some (if spec_checksum_ok (frame_of (ir_faces s f)) then 1 else 0) \<and>
         (\<exists>s'. processPendingIRPackets s = Some s' \<and>
            (if spec_checksum_ok (frame_of (ir_faces s f))
             then ir_faces s' f =
                    ir_faces (route_packet f (hd (frame_of (ir_faces s f))) (packet_len (ir_faces s f)) s) f \<and>
                  ir_data_buffers (loopstate_in s') f =
                    ir_data_buffers (loopstate_in
                      (route_packet f (hd (frame_of (ir_faces s f))) (packet_len (ir_faces s f)) s)) f
             else \<not> packet_ready (ir_faces s' f) \<and>
                  ir_data_buffers (loopstate_in s') f = ir_data_buffers (loopstate_in s) f))"
proof -
  have fb: "frame_in_buffer (ir_faces s f)"
    using assms(1,2) by (rule faces_okD)
  have "crccheck (packet_buffer (ir_faces s f)) (packet_len (ir_faces s f)) =
      Some (if spec_checksum_ok (frame_of (ir_faces s f)) then 1 else 0)"
    using crccheck_spec [of "packet_len (ir_faces s f)" "packet_buffer (ir_faces s f)"] fb assms(4)
    by (simp add: frame_of_def frame_in_buffer_def)
  moreover
  from processPendingIRPackets_effect [OF assms(1)]
  obtain s' where s': "processPendingIRPackets s = Some s'"
      "face_view f s' = face_result (face_view f s)"
    using assms(2) by auto
  have "if spec_checksum_ok (frame_of (ir_faces s f))
      then ir_faces s' f =
             ir_faces (route_packet f (hd (frame_of (ir_faces s f))) (packet_len (ir_faces s f)) s) f \<and>
           ir_data_buffers (loopstate_in s') f =
             ir_data_buffers (loopstate_in
               (route_packet f (hd (frame_of (ir_faces s f))) (packet_len (ir_faces s f)) s)) f
      else \<not> packet_ready (ir_faces s' f) \<and>
           ir_data_buffers (loopstate_in s') f = ir_data_buffers (loopstate_in s) f"
    using s'(2) assms(3,4)
    by (auto simp: face_view_def face_result_def route_packet_def)
  ultimately show ?thesis
    using s'(1) by blast
qed

theorem checksum_decides_validity_witness:
  "faces_ok face2_bad_checksum \<and> 2 < IR_FACE_COUNT \<and>
   packet_ready (ir_faces face2_bad_checksum 2) \<and>
   2 \<le> unat (packet_len (ir_faces face2_bad_checksum 2)) \<and>
   \<not> spec_checksum_ok (frame_of (ir_faces face2_bad_checksum 2)) \<and>
   crccheck (packet_buffer (ir_faces face2_bad_checksum 2)) (packet_len (ir_faces face2_bad_checksum 2))
     = Some 0 \<and>
   (\<exists>s'. processPendingIRPackets face2_bad_checksum = Some s' \<and>
      \<not> packet_ready (ir_faces s' 2) \<and>
      ir_data_buffers (loopstate_in s') 2 = ir_data_buffers (loopstate_in face2_bad_checksum) 2)"
proof -
  have h1: "faces_ok face2_bad_checksum" by (rule example_faces_ok)
  have h2: "2 < IR_FACE_COUNT" by (simp add: IR_FACE_COUNT_def)
  have h3: "packet_ready (ir_faces face2_bad_checksum 2)" by (simp add: example_faces)
  have h4: "2 \<le> unat (packet_len (ir_faces face2_bad_checksum 2))" by (simp add: example_faces)
  have h5: "\<not> spec_checksum_ok (frame_of (ir_faces face2_bad_checksum 2))"
    by (simp add: example_faces frame_of_def example_checksums)
  show ?thesis
    using h1 h2 h3 h4 h5 checksum_decides_validity [OF h1 h2 h3 h4] by simp
qed

subsection \<open>C3\<close>

text \<open>
  Claim C3, as the code has it. When the button interrupt ends \<^verbatim>\<open>power_sleep\<close>,
  \<^verbatim>\<open>sleep\<close> sets the woke flag; the next pass of the main loop hands it to the user
  callback. Nothing in the file clears the flag: over any later sequence of events the
  flag stays 1, and every input handed to the user callback carries it.
\<close>

theorem woke_flag_stays_set:
  assumes "faces_ok s" and "asleep s"
  shows "(\<exists>s1 cs li. exec loopEntry [Button_wake, Main_loop] s = Some s1 \<and>
            calls s1 = calls s @ cs \<and> loop_inputs cs = [li] \<and> woke_flag li = 1) \<and>
         (\<exists>s' cs. exec loopEntry (Button_wake # es) s = Some s' \<and> calls s' = calls s @ cs \<and>
            woke_flag (loopstate_in s') = 1 \<and>
            list_all (\<lambda>li. woke_flag li = 1) (loop_inputs cs))"
proof -
  let ?w = "sleep_exit s"
  have st: "step loopEntry Button_wake s = Some ?w"
    using assms(2) by (simp add: step_def)
  have ok: "faces_ok ?w" using assms(1) by (simp add: faces_ok_def)
  have aw: "\<not> asleep ?w" by simp
  have wf: "woke_flag (loopstate_in ?w) = 1" by simp
  from Main_loop_effect [OF ok aw, of loopEntry]
  obtain s1 s' cs where a: "prepare_effect ?w s1" "step loopEntry Main_loop ?w = Some s'"
      "calls s' = calls ?w @ cs" "loop_inputs cs = [loopstate_in s1]"
    by blast
  from a(1) wf have "woke_flag (loopstate_in s1) = 1"
    by (simp add: prepare_effect_def)
  with a(2-4) st
  have one: "\<exists>s1 cs li. exec loopEntry [Button_wake, Main_loop] s = Some s1 \<and>
            calls s1 = calls s @ cs \<and> loop_inputs cs = [li] \<and> woke_flag li = 1"
    by (intro exI [of _ s'] exI [of _ "[Button_ISR_off, Ir_enable, Pixel_enable] @ cs"]
        exI [of _ "loopstate_in s1"]) simp
  from exec_woke_kept [OF ok, of loopEntry es] wf
  obtain t ds where t: "exec loopEntry es ?w = Some t" "woke_flag (loopstate_in t) = 1"
      "calls t = calls ?w @ ds" "list_all (\<lambda>li. woke_flag li = 1) (loop_inputs ds)"
    by (auto simp: woke_kept_def)
  with st
  have all: "\<exists>s' cs. exec loopEntry (Button_wake # es) s = Some s' \<and> calls s' = calls s @ cs \<and>
            woke_flag (loopstate_in s') = 1 \<and>
            list_all (\<lambda>li. woke_flag li = 1) (loop_inputs cs)"
    by (intro exI [of _ t] exI [of _ "[Button_ISR_off, Ir_enable, Pixel_enable] @ ds"]) simp
  from one all show ?thesis by blast
qed

theorem woke_flag_stays_set_witness:
  "faces_ok asleep_after_timeout \<and> asleep asleep_after_timeout \<and>
   (\<exists>s1 cs li. exec example_loopEntry [Button_wake, Main_loop] asleep_after_timeout = Some s1 \<and>
      calls s1 = calls asleep_after_timeout @ cs \<and> loop_inputs cs = [li] \<and> woke_flag li = 1) \<and>
   (\<exists>s' cs. exec example_loopEntry (Button_wake # tl wake_then_two_passes) asleep_after_timeout = Some s' \<and>
      calls s' = calls asleep_after_timeout @ cs \<and>
      woke_flag (loopstate_in s') = 1 \<and>
      list_all (\<lambda>li. woke_flag li = 1) (loop_inputs cs))"
proof -
  have h1: "faces_ok asleep_after_timeout" and h2: "asleep asleep_after_timeout"
    using asleep_after_timeout_facts(1) by (simp_all add: slept_def)
  show ?thesis
    using h1 h2 woke_flag_stays_set [OF h1 h2, of example_loopEntry "tl wake_then_two_passes"]
    by blast
qed

text \<open>
  The claim C3 as stated says the wake event is observed once only. From the state that
  start-up, 600000 quiet ticks and one pass of the main loop lead to (asleep), the run
  "button wake, a tick with button activity, two passes of the main loop" stays awake, and
  both passes hand the user callback a woke flag of 1.
\<close>

theorem woke_flag_seen_twice:
  "asleep asleep_after_timeout \<and>
   exec example_loopEntry wake_then_two_passes asleep_after_timeout \<noteq> None \<and>
   \<not> asleep (the (exec example_loopEntry wake_then_two_passes asleep_after_timeout)) \<and>
   sleeps (new_calls asleep_after_timeout
     (the (exec example_loopEntry wake_then_two_passes asleep_after_timeout))) = 0 \<and>
   map woke_flag (loop_inputs (new_calls asleep_after_timeout
     (the (exec example_loopEntry wake_then_two_passes asleep_after_timeout)))) = [1, 1]"
proof -
  from wake_then_two_passes_run
  obtain s' cs where a: "exec example_loopEntry wake_then_two_passes asleep_after_timeout = Some s'"
      "calls s' = calls asleep_after_timeout @ cs" "sleeps cs = 0" "\<not> asleep s'"
      "map woke_flag (loop_inputs cs) = [1, 1]"
    by (elim exE conjE)
  have "new_calls asleep_after_timeout s' = cs"
    by (simp add: new_calls_def a(2))
  with a asleep_after_timeout_facts(1) show ?thesis
    by (simp add: slept_def)
qed

subsection \<open>C4\<close>

text \<open>
  Claim C4. A ready frame that is not a valid user-data frame (shorter than 2 bytes, wrong
  checksum, header 0x02 or any other header) is marked consumed, and nothing reaches the
  user callback: the face's descriptor, the button state, the timestamp and the woke flag
  of \<^verbatim>\<open>loopstate_in\<close> are unchanged, and the pipeline completes.
\<close>

theorem invalid_frame_consumed_silently:
  assumes "faces_ok s" and "f < IR_FACE_COUNT" and "packet_ready (ir_faces s f)"
    and "\<not> spec_user_data_frame (frame_of (ir_faces s f))"
  shows "\<exists>s'. processPendingIRPackets s = Some s' \<and>
           \<not> packet_ready (ir_faces s' f) \<and>
           ir_data_buffers (loopstate_in s') f = ir_data_buffers (loopstate_in s) f \<and>
           buttonstate (loopstate_in s') = buttonstate (loopstate_in s) \<and>
           millis (loopstate_in s') = millis (loopstate_in s) \<and>
           woke_flag (loopstate_in s') = woke_flag (loopstate_in s)"
proof -
  have fb: "frame_in_buffer (ir_faces s f)"
    using assms(1,2) by (rule faces_okD)
  from processPendingIRPackets_effect [OF assms(1)]
  obtain s' where s': "processPendingIRPackets s = Some s'" "ir_effect s s'"
      "face_view f s' = face_result (face_view f s)"
    using assms(2) by auto
  have "face_result (face_view f s) =
      ((ir_faces s f)\<lparr>packet_ready := False\<rparr>, ir_data_buffers (loopstate_in s) f)"
    using assms(3,4) length_frame_of [OF fb]
    by (auto simp: face_view_def face_result_def spec_user_data_frame_def)
  with s' show ?thesis
    by (simp add: face_view_def ir_effect_def)
qed

theorem invalid_frame_consumed_silently_witness:
  "faces_ok face0_short_frame \<and> 0 < IR_FACE_COUNT \<and>
   packet_ready (ir_faces face0_short_frame 0) \<and>
   \<not> spec_user_data_frame (frame_of (ir_faces face0_short_frame 0)) \<and>
   (\<exists>s'. processPendingIRPackets face0_short_frame = Some s' \<and>
      \<not> packet_ready (ir_faces s' 0) \<and>
      ir_data_buffers (loopstate_in s') 0 = ir_data_buffers (loopstate_in face0_short_frame) 0 \<and>
      buttonstate (loopstate_in s') = buttonstate (loopstate_in face0_short_frame) \<and>
      millis (loopstate_in s') = millis (loopstate_in face0_short_frame) \<and>
      woke_flag (loopstate_in s') = woke_flag (loopstate_in face0_short_frame))"
proof -
  have h1: "faces_ok face0_short_frame" by (rule example_faces_ok)
  have h2: "0 < IR_FACE_COUNT" by (simp add: IR_FACE_COUNT_def)
  have h3: "packet_ready (ir_faces face0_short_frame 0)" by (simp add: example_faces)
  have h4: "\<not> spec_user_data_frame (frame_of (ir_faces face0_short_frame 0))"
    by (simp add: example_faces frame_of_def spec_user_data_frame_def)
  show ?thesis
    using h1 h2 h3 h4 invalid_frame_consumed_silently [OF h1 h2 h3 h4] by blast
qed

subsection \<open>C5\<close>

text \<open>
  Claim C5. Starting from \<^verbatim>\<open>step_us = 0\<close>, after \<open>n\<close> calls of
  \<^verbatim>\<open>timer_256us_callback_sei\<close> the millisecond callback has run exactly
  \<open>256 * n div 1000\<close> times (each run calls \<^verbatim>\<open>incrementMillis1ms\<close> once, and the
  counter has advanced by that number), and \<^verbatim>\<open>step_us\<close> holds the remainder
  \<open>256 * n mod 1000\<close>: no tick is lost. The list \<open>us\<close> gives, for each interrupt, the
  outcome of the button update should the millisecond callback run; \<open>n\<close> is its length.
\<close>

theorem timer_256us_no_drift:
  assumes "step_us s = 0"
  shows "unat (step_us (fold timer_256us_callback_sei us s)) = (256 * length us) mod 1000 \<and>
         ms_ticks (calls (fold timer_256us_callback_sei us s)) =
           ms_ticks (calls s) + (256 * length us) div 1000 \<and>
         millis_counter (fold timer_256us_callback_sei us s) =
           millis_counter s + of_nat ((256 * length us) div 1000)"
  using timer_256us_callback_sei_fold [of s us] assms by simp

theorem timer_256us_no_drift_witness:
  "step_us power_on = 0 \<and>
   unat (step_us (fold timer_256us_callback_sei (replicate 4 (False, buttonstate_global power_on)) power_on)) = 24 \<and>
   ms_ticks (calls (fold timer_256us_callback_sei (replicate 4 (False, buttonstate_global power_on)) power_on)) = 1 \<and>
   millis_counter (fold timer_256us_callback_sei (replicate 4 (False, buttonstate_global power_on)) power_on) = 1"
proof -
  have h: "step_us power_on = 0" by (simp add: power_on_def)
  have c: "calls power_on = []" "millis_counter power_on = 0" by (simp_all add: power_on_def)
  show ?thesis
    using h timer_256us_no_drift [OF h, of "replicate 4 (False, buttonstate_global power_on)"]
    by (simp add: c)
qed

subsection \<open>C6\<close>

text \<open>
  Claim C6. \<^verbatim>\<open>grabAndClearButtonState\<close> copies the three fields of the global button
  state into the destination and clears only the flag bits of the global. A second grab
  with nothing in between returns the same \<^verbatim>\<open>down\<close> and \<^verbatim>\<open>clickcount\<close>, and flag bits
  zero, and changes nothing. The atomic block is one step of the model.
\<close>

theorem grabAndClearButtonState_twice:
  "(case grabAndClearButtonState d s of (d1, s1) \<Rightarrow>
      bitflags d1 = bitflags (buttonstate_global s) \<and>
      clickcount d1 = clickcount (buttonstate_global s) \<and>
      down d1 = down (buttonstate_global s) \<and>
      s1 = s\<lparr>buttonstate_global := (buttonstate_global s)\<lparr>bitflags := 0\<rparr>\<rparr> \<and>
      (case grabAndClearButtonState d' s1 of (d2, s2) \<Rightarrow>
         down d2 = down d1 \<and> clickcount d2 = clickcount d1 \<and> bitflags d2 = 0 \<and> s2 = s1))"
  by (simp add: grabAndClearButtonState_def)

subsection \<open>C7\<close>

text \<open>
  Claim C7. In one pass of the main loop the calls of \<^verbatim>\<open>pixel_bufferedSetPixel\<close> are
  exactly one per face whose output colour has the \<^verbatim>\<open>reserved\<close> bit set, in face order,
  with that colour; the display buffer entry of every other face is what it was before
  the pass.
\<close>

theorem dirty_faces_forwarded:
  assumes "faces_ok s"
  shows "\<exists>s1 s' cs. prepare_loopstate_in s = Some s1 \<and> loop_iteration loopEntry s = Some s' \<and>
     loopstate_out s' = loopEntry (loopstate_in s1) (loopstate_out s) \<and>
     calls s' = calls s @ cs \<and>
     filter is_setPixel cs =
       map (\<lambda>f. Pixel_bufferedSetPixel f (colors (loopstate_out s') f)) (dirty_faces (loopstate_out s')) \<and>
     (\<forall>f. pixel_buffer s' f =
        (if f < PIXEL_FACE_COUNT \<and> reserved (colors (loopstate_out s') f) \<noteq> 0
         then colors (loopstate_out s') f else pixel_buffer s f))"
proof -
  from loop_iteration_effect [OF assms, of loopEntry]
  obtain s1 where s1: "prepare_loopstate_in s = Some s1" "prepare_effect s s1"
    and it: "loop_iteration loopEntry s =
      Some (check_sleepTimer (log_call Pixel_displayBufferedPixels
              (forward_colors (call_loopEntry loopEntry s1))))"
    by blast
  let ?s' = "check_sleepTimer (log_call Pixel_displayBufferedPixels
              (forward_colors (call_loopEntry loopEntry s1)))"
  let ?out = "loopEntry (loopstate_in s1) (loopstate_out s)"
  from s1(2) obtain cs1 where cs1: "calls s1 = calls s @ UpdateMillisSnapshot # cs1" "list_all ir_call cs1"
    and eq: "loopstate_out s1 = loopstate_out s" "pixel_buffer s1 = pixel_buffer s"
    by (auto simp: prepare_effect_def)
  have out: "loopstate_out ?s' = ?out"
    by (simp add: eq)
  let ?cs = "UpdateMillisSnapshot # cs1 @ [LoopEntry (loopstate_in s1)] @
      map (\<lambda>f. Pixel_bufferedSetPixel f (colors ?out f)) (dirty_faces ?out) @
      [Pixel_displayBufferedPixels] @
      (if m_expireTime (sleepTimer s1) \<le> millis_snapshot s1
       then [Pixel_disable, Ir_disable, Button_ISR_on, Power_sleep] else [])"
  have c: "calls ?s' = calls s @ ?cs"
    by (simp add: eq cs1)
  have f: "filter is_setPixel ?cs = map (\<lambda>f. Pixel_bufferedSetPixel f (colors ?out f)) (dirty_faces ?out)"
    using ir_calls_counts [OF cs1(2)] by (simp add: is_setPixel_def)
  have p: "\<forall>f. pixel_buffer ?s' f =
        (if f < PIXEL_FACE_COUNT \<and> reserved (colors ?out f) \<noteq> 0
         then colors ?out f else pixel_buffer s f)"
    by (simp add: eq)
  from s1(1) it out c f p show ?thesis
    by (intro exI [of _ s1] exI [of _ ?s'] exI [of _ ?cs]) (simp only: simp_thms)
qed

theorem dirty_faces_forwarded_witness:
  "faces_ok (run_setup power_on) \<and>
   (\<exists>s1 s' cs. prepare_loopstate_in (run_setup power_on) = Some s1 \<and>
      loop_iteration example_loopEntry (run_setup power_on) = Some s' \<and>
      calls s' = calls (run_setup power_on) @ cs \<and>
      filter is_setPixel cs = [Pixel_bufferedSetPixel 0 \<lparr>rgb = 31, reserved = 1\<rparr>] \<and>
      pixel_buffer s' 0 = \<lparr>rgb = 31, reserved = 1\<rparr> \<and>
      pixel_buffer s' 1 = pixel_buffer (run_setup power_on) 1)"
proof -
  have h: "faces_ok (run_setup power_on)"
    by (simp add: faces_ok_power_on)
  from dirty_faces_forwarded [OF h, of example_loopEntry]
  obtain s1 s' cs where a: "prepare_loopstate_in (run_setup power_on) = Some s1"
      "loop_iteration example_loopEntry (run_setup power_on) = Some s'"
      "loopstate_out s' = example_loopEntry (loopstate_in s1) (loopstate_out (run_setup power_on))"
      "calls s' = calls (run_setup power_on) @ cs"
      "filter is_setPixel cs =
         map (\<lambda>f. Pixel_bufferedSetPixel f (colors (loopstate_out s') f)) (dirty_faces (loopstate_out s'))"
      "\<forall>f. pixel_buffer s' f =
        (if f < PIXEL_FACE_COUNT \<and> reserved (colors (loopstate_out s') f) \<noteq> 0
         then colors (loopstate_out s') f else pixel_buffer (run_setup power_on) f)"
    by blast
  have out: "colors (loopstate_out s') =
      (\<lambda>f. \<lparr>rgb = 0, reserved = 0\<rparr>)(0 := \<lparr>rgb = 31, reserved = 1\<rparr>, 1 := \<lparr>rgb = 992, reserved = 0\<rparr>)"
    by (simp add: a(3) example_loopEntry_def power_on_def)
  have d: "dirty_faces (loopstate_out s') = [0]"
    by (simp add: dirty_faces_def out PIXEL_FACE_COUNT_def upt_6)
  have "filter is_setPixel cs = [Pixel_bufferedSetPixel 0 \<lparr>rgb = 31, reserved = 1\<rparr>]"
    by (simp add: a(5) d out)
  moreover have "pixel_buffer s' 0 = \<lparr>rgb = 31, reserved = 1\<rparr>"
    using a(6) by (simp add: out PIXEL_FACE_COUNT_def)
  moreover have "pixel_buffer s' 1 = pixel_buffer (run_setup power_on) 1"
    using a(6) by (simp add: out)
  ultimately show ?thesis
    using h a(1,2,4) by blast
qed

subsection \<open>C8\<close>

text \<open>
  Claim C8. Start-up is \<^verbatim>\<open>run\<close> up to its loop, from a state with the clock at zero. The
  events are quiet: millisecond ticks without button activity, passes of the main loop and
  IR frames; no button interrupt, and the user callback cannot call \<^verbatim>\<open>postponeSleep\<close>.
  With fewer than 600000 ticks the system has not entered sleep. After exactly 600000
  ticks the sleep timer is expired for the next snapshot, and once the main loop makes
  its next pass the system is asleep and has entered sleep exactly once, whatever quiet
  events follow.
\<close>

theorem sleep_after_timeout_once:
  assumes "booted p" and "list_all quiet es0" and "ticks es0 < 600000"
    and "list_all quiet es1" and "ticks es1 = 600000" and "list_all quiet es2"
  shows "(\<exists>s. exec loopEntry es0 (run_setup p) = Some s \<and> \<not> asleep s \<and> sleeps (calls s) = 0) \<and>
         (\<exists>s1. exec loopEntry es1 (run_setup p) = Some s1 \<and>
               Timer_isExpired (sleepTimer s1) (updateMillisSnapshot s1)) \<and>
         (\<exists>s'. exec loopEntry (es1 @ Main_loop # es2) (run_setup p) = Some s' \<and>
               asleep s' \<and> sleeps (calls s') = 1)"
proof -
  note init = awaiting_timeout_run_setup [OF assms(1)]
  from awaiting_timeout_exec [OF assms(2) init, of loopEntry] assms(3)
  obtain s where s: "exec loopEntry es0 (run_setup p) = Some s" "awaiting_timeout (ticks es0) s"
    by auto
  from s(2) assms(3) have "\<not> asleep s \<and> sleeps (calls s) = 0"
    by (auto simp: awaiting_timeout_def)
  with s(1) have a: "\<exists>s. exec loopEntry es0 (run_setup p) = Some s \<and> \<not> asleep s \<and> sleeps (calls s) = 0"
    by blast
  from awaiting_timeout_exec [OF assms(4) init, of loopEntry] assms(5)
  obtain s1 where s1: "exec loopEntry es1 (run_setup p) = Some s1" "awaiting_timeout 600000 s1"
    by auto
  from s1(2) have "Timer_isExpired (sleepTimer s1) (updateMillisSnapshot s1)"
    by (simp add: awaiting_timeout_def Timer_isExpired_def SLEEP_TIMEOUT_MS_value)
  with s1(1) have b: "\<exists>s1. exec loopEntry es1 (run_setup p) = Some s1 \<and>
               Timer_isExpired (sleepTimer s1) (updateMillisSnapshot s1)"
    by blast
  from awaiting_timeout_sleeps [OF s1(2), of loopEntry]
  obtain s2 where s2: "step loopEntry Main_loop s1 = Some s2" "slept s2"
    by blast
  from slept_exec [OF assms(6) s2(2), of loopEntry]
  obtain s' where s': "exec loopEntry es2 s2 = Some s'" "slept s'"
    by blast
  have "exec loopEntry (es1 @ Main_loop # es2) (run_setup p) = Some s'"
    by (simp add: exec_append s1(1) s2(1) s'(1))
  with s'(2) have c: "\<exists>s'. exec loopEntry (es1 @ Main_loop # es2) (run_setup p) = Some s' \<and>
               asleep s' \<and> sleeps (calls s') = 1"
    by (auto simp: slept_def)
  from a b c show ?thesis by blast
qed

theorem sleep_after_timeout_once_witness:
  "booted power_on \<and> list_all quiet [Main_loop, quiet_tick, Main_loop] \<and>
   ticks [Main_loop, quiet_tick, Main_loop] < 600000 \<and>
   list_all quiet (replicate 600000 quiet_tick) \<and> ticks (replicate 600000 quiet_tick) = 600000 \<and>
   list_all quiet [Main_loop, quiet_tick] \<and>
   (\<exists>s. exec example_loopEntry [Main_loop, quiet_tick, Main_loop] (run_setup power_on) = Some s \<and>
        \<not> asleep s \<and> sleeps (calls s) = 0) \<and>
   (\<exists>s1. exec example_loopEntry (replicate 600000 quiet_tick) (run_setup power_on) = Some s1 \<and>
        Timer_isExpired (sleepTimer s1) (updateMillisSnapshot s1)) \<and>
   (\<exists>s'. exec example_loopEntry (replicate 600000 quiet_tick @ Main_loop # [Main_loop, quiet_tick])
          (run_setup power_on) = Some s' \<and>
        asleep s' \<and> sleeps (calls s') = 1)"
proof -
  have h1: "booted power_on" by (rule booted_power_on)
  have h2: "list_all quiet [Main_loop, quiet_tick, Main_loop]"
    by (simp add: quiet_def quiet_tick_def)
  have h3: "ticks [Main_loop, quiet_tick, Main_loop] < 600000"
    by (simp add: is_tick_def quiet_tick_def)
  have h4: "list_all quiet (replicate 600000 quiet_tick)" by (rule quiet_ticks)
  have h5: "ticks (replicate 600000 quiet_tick) = 600000" by (rule quiet_ticks)
  have h6: "list_all quiet [Main_loop, quiet_tick]"
    by (simp add: quiet_def quiet_tick_def)
  show ?thesis
    using h1 h2 h3 h4 h5 h6 sleep_after_timeout_once [OF h1 h2 h3 h4 h5 h6, of example_loopEntry]
    by blast
qed

subsection \<open>C9\<close>

text \<open>
  Claim C9. \<^verbatim>\<open>run\<close> sets, for every face, the data pointer to the face's packet buffer
  plus one and the ready flag to zero. After that, over any sequence of events, the data
  pointers keep that value, and a ready flag that is 1 stays 1: the core sets ready flags
  and never clears them.
\<close>

theorem descriptors_set_once:
  assumes "faces_ok p"
  shows "(\<forall>f<IR_FACE_COUNT.
            data (ir_data_buffers (loopstate_in (run_setup p)) f) = PacketBuffer f 1 \<and>
            ready_flag (ir_data_buffers (loopstate_in (run_setup p)) f) = 0) \<and>
         (\<exists>s1 s2. exec loopEntry es1 (run_setup p) = Some s1 \<and> exec loopEntry es2 s1 = Some s2 \<and>
            (\<forall>f<IR_FACE_COUNT.
               data (ir_data_buffers (loopstate_in s1) f) = PacketBuffer f 1 \<and>
               data (ir_data_buffers (loopstate_in s2) f) = PacketBuffer f 1) \<and>
            (\<forall>f. ready_flag (ir_data_buffers (loopstate_in s1) f) = 1 \<longrightarrow>
                 ready_flag (ir_data_buffers (loopstate_in s2) f) = 1))"
proof -
  have ok: "faces_ok (run_setup p)" using assms by simp
  from exec_descriptors_kept [OF ok, of loopEntry es1]
  obtain s1 where s1: "exec loopEntry es1 (run_setup p) = Some s1" "faces_ok s1"
      "descriptors_kept (run_setup p) s1"
    by blast
  from exec_descriptors_kept [OF s1(2), of loopEntry es2]
  obtain s2 where s2: "exec loopEntry es2 s1 = Some s2" "descriptors_kept s1 s2"
    by blast
  have a: "\<forall>f<IR_FACE_COUNT.
            data (ir_data_buffers (loopstate_in (run_setup p)) f) = PacketBuffer f 1 \<and>
            ready_flag (ir_data_buffers (loopstate_in (run_setup p)) f) = 0"
    by simp
  have b: "\<forall>f<IR_FACE_COUNT.
               data (ir_data_buffers (loopstate_in s1) f) = PacketBuffer f 1 \<and>
               data (ir_data_buffers (loopstate_in s2) f) = PacketBuffer f 1"
    using s1(3) s2(2) by (simp add: descriptors_kept_def)
  have c: "\<forall>f. ready_flag (ir_data_buffers (loopstate_in s1) f) = 1 \<longrightarrow>
                 ready_flag (ir_data_buffers (loopstate_in s2) f) = 1"
    using s2(2) by (simp add: descriptors_kept_def)
  from a b c s1(1) s2(1) show ?thesis by blast
qed

theorem descriptors_set_once_witness:
  "faces_ok power_on \<and>
   data (ir_data_buffers (loopstate_in (run_setup power_on)) 2) = PacketBuffer 2 1 \<and>
   ready_flag (ir_data_buffers (loopstate_in (run_setup power_on)) 2) = 0 \<and>
   (\<exists>s1 s2.
      exec example_loopEntry [Ir_frame 2 [0x01, 0x48, 0x49, 0x4B], Main_loop] (run_setup power_on) = Some s1 \<and>
      exec example_loopEntry [Main_loop, Timer_256us (True, buttonstate_global power_on), Main_loop] s1 = Some s2 \<and>
      ready_flag (ir_data_buffers (loopstate_in s1) 2) = 1 \<and>
      ready_flag (ir_data_buffers (loopstate_in s2) 2) = 1 \<and>
      data (ir_data_buffers (loopstate_in s2) 2) = PacketBuffer 2 1)"
proof -
  have h: "faces_ok power_on" by (rule faces_ok_power_on)
  have n: "2 < IR_FACE_COUNT" by (simp add: IR_FACE_COUNT_def)
  from descriptors_set_once [OF h, of example_loopEntry
      "[Ir_frame 2 [0x01, 0x48, 0x49, 0x4B], Main_loop]"
      "[Main_loop, Timer_256us (True, buttonstate_global power_on), Main_loop]"]
  obtain s1 s2 where a:
      "data (ir_data_buffers (loopstate_in (run_setup power_on)) 2) = PacketBuffer 2 1"
      "ready_flag (ir_data_buffers (loopstate_in (run_setup power_on)) 2) = 0"
      "exec example_loopEntry [Ir_frame 2 [0x01, 0x48, 0x49, 0x4B], Main_loop] (run_setup power_on) = Some s1"
      "exec example_loopEntry [Main_loop, Timer_256us (True, buttonstate_global power_on), Main_loop] s1 = Some s2"
      "data (ir_data_buffers (loopstate_in s2) 2) = PacketBuffer 2 1"
      "ready_flag (ir_data_buffers (loopstate_in s1) 2) = 1 \<longrightarrow>
       ready_flag (ir_data_buffers (loopstate_in s2) 2) = 1"
    using n by blast
  from exec_face2_user_frame [of example_loopEntry] a(3)
  have "ready_flag (ir_data_buffers (loopstate_in s1) 2) = 1" by auto
  with h a show ?thesis by blast
qed

subsection \<open>C10\<close>

text \<open>
  Claim C10. The pass over one face calls \<^verbatim>\<open>crccheck\<close> exactly when the face holds a
  ready frame of at least 2 bytes, once, on the face's buffer with the frame's length;
  so every call of \<^verbatim>\<open>crccheck\<close> that the pipeline makes has a length of at least 2.
  For such a length, within the buffer, the loop of \<^verbatim>\<open>crccheck\<close> reads the offsets 0 up
  to \<open>len - 2\<close> and stops with the pointer at \<open>len - 1\<close>; the comparison reads that
  offset; no other offset is read.
\<close>

theorem crccheck_called_and_reads_in_frame:
  assumes "faces_ok s" and "f < IR_FACE_COUNT" and "2 \<le> unat n" and "unat n \<le> length buf"
  shows "(\<exists>s' cs. processPendingIRPacket f s = Some s' \<and> calls s' = calls s @ cs \<and>
            filter is_crccheck cs =
              (if packet_ready (ir_faces s f) \<and> 2 \<le> unat (packet_len (ir_faces s f))
               then [Crccheck (PacketBuffer f 0) (packet_len (ir_faces s f))] else [])) \<and>
         (\<exists>s' cs. processPendingIRPackets s = Some s' \<and> calls s' = calls s @ cs \<and>
            (\<forall>c \<in> set cs. \<forall>p m. c = Crccheck p m \<longrightarrow> 2 \<le> unat m)) \<and>
         crccheck_loop buf 0 n 0xFF [] =
           Some (unat n - 1, spec_crc8 (take (unat n - 1) buf), [0..<unat n - 1]) \<and>
         crccheck_reads buf n =
           Some (if buf ! (unat n - 1) = spec_crc8 (take (unat n - 1) buf) then 1 else 0,
                 [0..<unat n])"
proof -
  note one = processPendingIRPacket_crccheck_calls [OF faces_okD [OF assms(1,2)]]
  from processPendingIRPackets_effect [OF assms(1)]
  obtain s' cs where s': "processPendingIRPackets s = Some s'" "calls s' = calls s @ cs"
      "list_all ir_call cs"
    by (auto simp: ir_effect_def)
  have "\<forall>c \<in> set cs. \<forall>p m. c = Crccheck p m \<longrightarrow> 2 \<le> unat m"
    using s'(3) by (auto simp: list_all_iff ir_call_def)
  with s'(1,2) have a: "\<exists>s' cs. processPendingIRPackets s = Some s' \<and> calls s' = calls s @ cs \<and>
            (\<forall>c \<in> set cs. \<forall>p m. c = Crccheck p m \<longrightarrow> 2 \<le> unat m)"
    by blast
  have nz: "n \<noteq> 0" using assms(3) by auto
  have k: "unat (n - 1) = unat n - 1" using nz by (simp add: unat_minus_one)
  have b: "crccheck_loop buf 0 n 0xFF [] =
      Some (unat n - 1, spec_crc8 (take (unat n - 1) buf), [0..<unat n - 1])"
    using crccheck_loop_in_bounds [OF k, where p = 0 and buf = buf and c = "0xFF" and reads = "[]"]
      assms(4)
    by (simp add: spec_crc8_def)
  have c: "crccheck_reads buf n =
      Some (if buf ! (unat n - 1) = spec_crc8 (take (unat n - 1) buf) then 1 else 0, [0..<unat n])"
    using crccheck_reads_in_bounds [of n buf] assms(3,4) by (simp add: spec_crc8_def)
  from one a b c show ?thesis by blast
qed

theorem crccheck_called_and_reads_in_frame_witness:
  "faces_ok face2_user_frame \<and> 2 < IR_FACE_COUNT \<and> 2 \<le> unat (4 :: u8) \<and>
   unat (4 :: u8) \<le> length [0x01, 0x48, 0x49, 0x4B :: u8] \<and>
   (\<exists>s' cs. processPendingIRPacket 2 face2_user_frame = Some s' \<and>
        calls s' = calls face2_user_frame @ cs \<and>
        filter is_crccheck cs = [Crccheck (PacketBuffer 2 0) 4]) \<and>
   (\<exists>s' cs. processPendingIRPackets face2_user_frame = Some s' \<and>
        calls s' = calls face2_user_frame @ cs \<and>
        (\<forall>c \<in> set cs. \<forall>p m. c = Crccheck p m \<longrightarrow> 2 \<le> unat m)) \<and>
   crccheck_loop [0x01, 0x48, 0x49, 0x4B] 0 4 0xFF [] = Some (3, 0x4B, [0, 1, 2]) \<and>
   crccheck_reads [0x01, 0x48, 0x49, 0x4B] 4 = Some (1, [0, 1, 2, 3])"
proof -
  have h1: "faces_ok face2_user_frame" by (rule example_faces_ok)
  have h2: "2 < IR_FACE_COUNT" by (simp add: IR_FACE_COUNT_def)
  have h3: "2 \<le> unat (4 :: u8)" by simp
  have h4: "unat (4 :: u8) \<le> length [0x01, 0x48, 0x49, 0x4B :: u8]" by simp
  have u: "[0..<3] = [0, 1, 2]" "[0..<4] = [0, 1, 2, 3]"
    by (simp_all add: upt_rec)
  show ?thesis
    using h1 h2 crccheck_called_and_reads_in_frame [OF h1 h2 h3 h4]
    by (simp add: spec_crc8_01_48_49 u example_faces)
qed

end
